theory Spec2Isabelle
  imports Main "HOL-Library.AList"
begin

section \<open>Strings and errors\<close>

text \<open>
  A Python \<open>str\<close> is a sequence of Unicode code points. The sources work on Cyrillic
  text and report character columns, so a string is modelled as the list of its code
  points; \<open>ascii\<close> embeds an ASCII literal.
\<close>

type_synonym pystr = "nat list"

definition ascii :: "string \<Rightarrow> pystr" where
  "ascii s = map of_char s"

text \<open>The exceptions that the modelled functions raise, as values.\<close>

datatype error =
    ValueError | RuntimeError | OSError | OverflowError | IndexError | KeyError | AssertionError
  | AttributeError | TypeError

section \<open>Worker process handle (\<open>multi_server.py\<close>, \<open>ManagedServerProcess\<close>)\<close>

text \<open>
  \<open>subprocess.Popen\<close>: the object remembers the child's pid; \<open>poll()\<close> returns
  \<open>None\<close> while the child runs and its return code afterwards.
\<close>

record popen =
  pid :: nat
  returncode :: "int option"

record managed_server_process =
  project_name :: pystr
  project_path :: pystr
  port :: int
  transport :: pystr
  host :: pystr
  context_opt :: "pystr option"
  modes :: "pystr list"
  log_level :: "pystr option"
  auto_restart :: bool
  process :: "popen option"
  start_time :: "int option"
  restart_count :: nat

text \<open>
  What the handle's methods touch outside the object: the wall clock (whole seconds),
  the durations handed to \<open>time.sleep\<close> (oldest first), the pid the next child gets,
  whether \<open>subprocess.Popen\<close> succeeds, and whether \<open>socket.bind((host, port))\<close>
  succeeds.
\<close>

record world =
  clock :: int
  sleeps :: "nat list"
  next_pid :: nat
  can_spawn :: bool
  can_bind :: "pystr \<Rightarrow> int \<Rightarrow> bool"

definition sleep :: "nat \<Rightarrow> world \<Rightarrow> world" where
  "sleep d w = w\<lparr>clock := clock w + int d, sleeps := sleeps w @ [d]\<rparr>"

definition is_alive :: "managed_server_process \<Rightarrow> bool" where
  "is_alive s = (case process s of None \<Rightarrow> False | Some p \<Rightarrow> returncode p = None)"

text \<open>
  \<open>start\<close>: a no-op when the child runs; otherwise the log files are opened, the child is
  spawned and the start time recorded. A failing \<open>Popen\<close> raises \<open>OSError\<close> and leaves
  the handle as it was.
\<close>

definition start :: "world \<Rightarrow> managed_server_process \<Rightarrow> error option \<times> world \<times> managed_server_process" where
  "start w s =
     (if process s \<noteq> None \<and> is_alive s then (None, w, s)
      else if \<not> can_spawn w then (Some OSError, w, s)
      else (None, w\<lparr>next_pid := Suc (next_pid w)\<rparr>,
            s\<lparr>process := Some \<lparr>pid = next_pid w, returncode = None\<rparr>,
              start_time := Some (clock w)\<rparr>))"

text \<open>
  \<open>stop\<close>: when no child runs the process object is dropped; otherwise the child is
  terminated (killed after the timeout) and the object is dropped in the \<open>finally\<close>
  block. The child is taken to obey the signal within the timeouts.
\<close>

definition stop :: "managed_server_process \<Rightarrow> managed_server_process" where
  "stop s =
     (if process s = None \<or> \<not> is_alive s then s\<lparr>process := None\<rparr>
      else s\<lparr>process := None\<rparr>)"

definition max_retries :: nat where
  "max_retries = 3"

definition backoff :: "nat \<Rightarrow> nat" where
  "backoff n = min (2 ^ n) 30"

text \<open>
  \<open>restart\<close>: refused (returns \<open>False\<close>) once the counter has reached \<open>max_retries\<close>;
  otherwise sleeps the backoff, stops, starts and counts the attempt.
\<close>

definition restart :: "world \<Rightarrow> managed_server_process \<Rightarrow> (error + bool) \<times> world \<times> managed_server_process" where
  "restart w s =
     (if restart_count s \<ge> max_retries then (Inr False, w, s)
      else
        let w1 = sleep (backoff (restart_count s)) w;
            s1 = stop s
        in case start w1 s1 of
             (Some e, w2, s2) \<Rightarrow> (Inl e, w2, s2)
           | (None, w2, s2) \<Rightarrow> (Inr True, w2, s2\<lparr>restart_count := restart_count s2 + 1\<rparr>))"

definition reset_restart_count :: "managed_server_process \<Rightarrow> managed_server_process" where
  "reset_restart_count s = s\<lparr>restart_count := 0\<rparr>"

definition uptime :: "world \<Rightarrow> managed_server_process \<Rightarrow> int option" where
  "uptime w s =
     (case start_time s of
        Some t \<Rightarrow> if is_alive s then Some (clock w - t) else None
      | None \<Rightarrow> None)"

definition status :: "managed_server_process \<Rightarrow> string" where
  "status s =
     (if is_alive s then ''running''
      else if process s \<noteq> None then ''crashed''
      else if \<not> auto_restart s then ''stopped''
      else ''stopped'')"

section \<open>Monitor loop (\<open>MultiServerManager.run_forever\<close>)\<close>

definition STABLE_PERIOD :: int where
  "STABLE_PERIOD = 60"

text \<open>The second half of the loop body: the counter is reset after a stable period.\<close>

definition reset_if_stable :: "world \<Rightarrow> managed_server_process \<Rightarrow> managed_server_process" where
  "reset_if_stable w s =
     (case uptime w s of
        Some u \<Rightarrow> if is_alive s \<and> u > STABLE_PERIOD then reset_restart_count s else s
      | None \<Rightarrow> s)"

text \<open>
  The body of \<open>for server in servers_snapshot\<close>: a dead worker with \<open>auto_restart\<close> is
  restarted, and \<open>auto_restart\<close> is switched off when \<open>restart\<close> returns \<open>False\<close>.
  An exception of \<open>restart\<close> leaves the loop.
\<close>

definition monitor_server :: "world \<Rightarrow> managed_server_process \<Rightarrow> error option \<times> world \<times> managed_server_process" where
  "monitor_server w s =
     (if \<not> is_alive s \<and> auto_restart s then
        (case restart w s of
           (Inl e, w', s') \<Rightarrow> (Some e, w', s')
         | (Inr ok, w', s') \<Rightarrow>
             let s'' = (if \<not> ok then s'\<lparr>auto_restart := False\<rparr> else s')
             in (None, w', reset_if_stable w' s''))
      else (None, w, reset_if_stable w s))"

text \<open>
  The environment's part of the crash scenario: the child exits with code \<open>rc\<close>, so
  that \<open>poll()\<close> reports it from now on.
\<close>

definition child_exits :: "int \<Rightarrow> managed_server_process \<Rightarrow> managed_server_process" where
  "child_exits rc s =
     (case process s of
        None \<Rightarrow> s
      | Some p \<Rightarrow> s\<lparr>process := Some (p\<lparr>returncode := Some rc\<rparr>)\<rparr>)"

text \<open>
  \<open>n\<close> monitor ticks on one worker whose child has died again before every tick.
\<close>

fun crash_ticks :: "nat \<Rightarrow> world \<Rightarrow> managed_server_process \<Rightarrow> error option \<times> world \<times> managed_server_process" where
  "crash_ticks 0 w s = (None, w, s)"
| "crash_ticks (Suc n) w s =
     (case crash_ticks n w s of
        (Some e, w', s') \<Rightarrow> (Some e, w', s')
      | (None, w', s') \<Rightarrow> monitor_server w' (child_exits 1 s'))"

text \<open>A concrete world and a freshly registered worker, for evaluating the model.\<close>

definition demo_world :: world where
  "demo_world = \<lparr>clock = 0, sleeps = [], next_pid = 100, can_spawn = True, can_bind = (\<lambda>h p. True)\<rparr>"

definition demo_server :: managed_server_process where
  "demo_server =
     \<lparr>project_name = ascii ''alpha'', project_path = ascii ''/tmp/alpha'', port = 9200,
      transport = ascii ''sse'', host = ascii ''0.0.0.0'', context_opt = None, modes = [],
      log_level = None, auto_restart = True, process = None, start_time = None,
      restart_count = 0\<rparr>"

section \<open>Supervisor (\<open>multi_server.py\<close>, \<open>MultiServerManager\<close>)\<close>

text \<open>
  \<open>_servers\<close> is a dictionary from project name to handle. Python dictionaries keep
  insertion order, and \<open>add_and_start_server\<close> reads the first entry, so the dictionary is
  an association list; every operation below keeps its keys distinct. Calls are taken one
  after the other: the lock is not modelled.
\<close>

type_synonym servers = "(pystr \<times> managed_server_process) list"

definition used_ports :: "servers \<Rightarrow> int list" where
  "used_ports m = map (\<lambda>(k, s). port s) m"

text \<open>One pass of the \<open>for\<close> loop of \<open>run_forever\<close> over the snapshot of the handles.\<close>

fun monitor_pass :: "world \<Rightarrow> servers \<Rightarrow> error option \<times> world \<times> servers" where
  "monitor_pass w [] = (None, w, [])"
| "monitor_pass w ((k, s) # rest) =
     (case monitor_server w s of
        (Some e, w', s') \<Rightarrow> (Some e, w', (k, s') # rest)
      | (None, w', s') \<Rightarrow>
          (case monitor_pass w' rest of (r, w'', rest') \<Rightarrow> (r, w'', (k, s') # rest')))"

text \<open>
  \<open>add_server\<close>: raises \<open>ValueError\<close> for a name that is registered, and otherwise stores a
  new handle under the name. The port is stored as given.
\<close>

definition add_server ::
  "servers \<Rightarrow> pystr \<Rightarrow> pystr \<Rightarrow> int \<Rightarrow> pystr \<Rightarrow> pystr \<Rightarrow> pystr option \<Rightarrow> pystr list \<Rightarrow> pystr option
     \<Rightarrow> error + servers" where
  "add_server m name path prt tr hst ctx mds lvl =
     (if name \<in> set (map fst m) then Inl ValueError
      else Inr (m @ [(name,
        \<lparr>project_name = name, project_path = path, port = prt, transport = tr, host = hst,
         context_opt = ctx, modes = mds, log_level = lvl, auto_restart = True, process = None,
         start_time = None, restart_count = 0\<rparr>)]))"

text \<open>Assignment to the handle stored under a key (the handle object is mutated in place).\<close>

fun put_server :: "pystr \<Rightarrow> managed_server_process \<Rightarrow> servers \<Rightarrow> servers" where
  "put_server name s [] = []"
| "put_server name s ((k, v) # rest) =
     (if k = name then (k, s) # rest else (k, v) # put_server name s rest)"

text \<open>
  \<open>start_server\<close>: \<open>ValueError\<close> for an unknown project; otherwise \<open>auto_restart\<close> is set and
  the handle started. A failure of \<open>start\<close> leaves the flag set.
\<close>

definition start_server :: "world \<Rightarrow> servers \<Rightarrow> pystr \<Rightarrow> error option \<times> world \<times> servers" where
  "start_server w m name =
     (case map_of m name of
        None \<Rightarrow> (Some ValueError, w, m)
      | Some server \<Rightarrow>
          (case start w (server\<lparr>auto_restart := True\<rparr>) of
             (r, w', s') \<Rightarrow> (r, w', put_server name s' m)))"

text \<open>
  \<open>find_free_port\<close>: the candidates are the hundred ports from \<open>start_port\<close> on. An
  \<open>OSError\<close> of \<open>bind\<close> moves on to the next candidate; a port outside \<open>0..65535\<close> makes
  \<open>bind\<close> raise \<open>OverflowError\<close>, which is not caught.
\<close>

fun try_ports :: "world \<Rightarrow> pystr \<Rightarrow> int list \<Rightarrow> error + int" where
  "try_ports w hst [] = Inl RuntimeError"
| "try_ports w hst (p # ps) =
     (if p < 0 \<or> 65535 < p then Inl OverflowError
      else if can_bind w hst p then Inr p
      else try_ports w hst ps)"

definition find_free_port :: "world \<Rightarrow> servers \<Rightarrow> pystr \<Rightarrow> error + int" where
  "find_free_port w m hst =
     (let start_port = (if used_ports m \<noteq> [] then Max (set (used_ports m)) + 1 else 9200)
      in try_ports w hst [start_port..start_port + 99])"

text \<open>A worker that has used up its restarts: the dead child's object is still held.\<close>

definition exhausted_server :: managed_server_process where
  "exhausted_server =
     demo_server\<lparr>process := Some \<lparr>pid = 102, returncode = Some 1\<rparr>, restart_count := 3\<rparr>"

text \<open>\<open>str(n)\<close> for a natural number: its decimal digits.\<close>

fun str_nat :: "nat \<Rightarrow> pystr" where
  "str_nat n = (if n < 10 then [48 + n] else str_nat (n div 10) @ [48 + n mod 10])"

declare str_nat.simps [simp del]

text \<open>Reading the digits back, to tell the numerals of different numbers apart.\<close>

definition int_of_digits :: "pystr \<Rightarrow> nat" where
  "int_of_digits ds = foldl (\<lambda>a d. 10 * a + (d - 48)) 0 ds"

lemma int_of_digits_str_nat: "int_of_digits (str_nat n) = n"
proof (induction n rule: str_nat.induct)
  case (1 n)
  show ?case
  proof (cases "n < 10")
    case True
    then show ?thesis by (simp add: str_nat.simps[of n] int_of_digits_def)
  next
    case False
    with 1 have "int_of_digits (str_nat (n div 10)) = n div 10" by simp
    with False show ?thesis by (simp add: str_nat.simps[of n] int_of_digits_def)
  qed
qed

lemma str_nat_inj: "str_nat a = str_nat b \<Longrightarrow> a = b"
  by (metis int_of_digits_str_nat)

text \<open>
  \<open>project_path.rstrip("/\\")\<close> and \<open>os.path.basename\<close> (the POSIX one: the part after
  the last slash). Code point 47 is the slash, 92 the backslash.
\<close>

definition rstrip_seps :: "pystr \<Rightarrow> pystr" where
  "rstrip_seps p = rev (dropWhile (\<lambda>c. c = 47 \<or> c = 92) (rev p))"

definition basename :: "pystr \<Rightarrow> pystr" where
  "basename p = rev (takeWhile (\<lambda>c. c \<noteq> 47) (rev p))"

text \<open>
  The name loop of \<open>add_and_start_server\<close>:
  \<^verbatim>\<open>while project_name in existing_names: counter += 1; project_name = f"{base_name}_{counter}"\<close>
\<close>

function dedupe_name :: "pystr list \<Rightarrow> pystr \<Rightarrow> nat \<Rightarrow> pystr \<Rightarrow> pystr" where
  "dedupe_name existing_names base_name counter name =
     (if name \<in> set existing_names
      then dedupe_name existing_names base_name (counter + 1)
             (base_name @ ascii ''_'' @ str_nat (counter + 1))
      else name)"
  by pat_completeness auto

lemma finite_suffixed_in:
  "finite {c. k < c \<and> base @ u @ str_nat c \<in> set E}"
proof -
  have "inj (\<lambda>c. base @ u @ str_nat c)"
    by (rule injI) (simp add: str_nat_inj)
  then have "finite ((\<lambda>c. base @ u @ str_nat c) -` set E)"
    by (intro finite_vimageI) simp_all
  then show ?thesis
    by (rule rev_finite_subset) auto
qed

termination dedupe_name
proof (relation "measure (\<lambda>(E, base, k, name).
          card {c. k < c \<and> base @ ascii ''_'' @ str_nat c \<in> set E}
          + (if name \<in> set E then 1 else 0))", goal_cases)
  case 1
  then show ?case by simp
next
  case (2 E base k name)
  let ?A = "\<lambda>j. {c. j < c \<and> base @ ascii ''_'' @ str_nat c \<in> set E}"
  show ?case
  proof (cases "base @ ascii ''_'' @ str_nat (k + 1) \<in> set E")
    case True
    have "?A k = insert (k + 1) (?A (k + 1))"
      using True by (auto simp: Suc_lessI)
    moreover have "k + 1 \<notin> ?A (k + 1)" by simp
    ultimately have "card (?A k) = Suc (card (?A (k + 1)))"
      using finite_suffixed_in[of "k + 1" base "ascii ''_''" E] by simp
    with 2 True show ?thesis by simp
  next
    case False
    have "?A (k + 1) \<subseteq> ?A k" by auto
    then have "card (?A (k + 1)) \<le> card (?A k)"
      using finite_suffixed_in[of k base "ascii ''_''" E] by (intro card_mono) simp_all
    with 2 False show ?thesis by simp
  qed
qed

declare dedupe_name.simps [simp del]

text \<open>
  \<open>add_and_start_server\<close>. The result is the registered handle, from which \<open>to_dict\<close>
  reads the record it returns. Every exit by an exception keeps what was done before it.
\<close>

definition add_and_start_server ::
  "world \<Rightarrow> servers \<Rightarrow> pystr \<Rightarrow> pystr option \<Rightarrow> pystr option \<Rightarrow> pystr option \<Rightarrow> pystr list
     \<Rightarrow> pystr option \<Rightarrow> (error + managed_server_process) \<times> world \<times> servers" where
  "add_and_start_server w m path tr_opt hst_opt ctx mds lvl =
     (let base_name = basename (rstrip_seps path) in
      if base_name = [] then (Inl ValueError, w, m)
      else
        let name = dedupe_name (map fst m) base_name 1 base_name;
            tr = (case tr_opt of
                    Some t \<Rightarrow> t
                  | None \<Rightarrow> (case m of [] \<Rightarrow> ascii ''sse'' | (k, first) # _ \<Rightarrow> transport first));
            hst = (case hst_opt of
                    Some h \<Rightarrow> h
                  | None \<Rightarrow> (case m of [] \<Rightarrow> ascii ''0.0.0.0'' | (k, first) # _ \<Rightarrow> host first))
        in case find_free_port w m hst of
             Inl e \<Rightarrow> (Inl e, w, m)
           | Inr prt \<Rightarrow>
               (case add_server m name path prt tr hst ctx mds lvl of
                  Inl e \<Rightarrow> (Inl e, w, m)
                | Inr m1 \<Rightarrow>
                    (case start_server w m1 name of
                       (Some e, w', m2) \<Rightarrow> (Inl e, w', m2)
                     | (None, w', m2) \<Rightarrow>
                         (case map_of m2 name of
                            None \<Rightarrow> (Inl KeyError, w', m2)
                          | Some s \<Rightarrow> (Inr s, w', m2)))))"

text \<open>
  The arguments of one call of \<open>add_and_start_server\<close>, and a sequence of calls that stops
  at the first exception.
\<close>

record add_request =
  rq_path :: pystr
  rq_transport :: "pystr option"
  rq_host :: "pystr option"
  rq_context :: "pystr option"
  rq_modes :: "pystr list"
  rq_log_level :: "pystr option"

fun add_and_start_all ::
  "world \<Rightarrow> servers \<Rightarrow> add_request list \<Rightarrow> (error + managed_server_process list) \<times> world \<times> servers" where
  "add_and_start_all w m [] = (Inr [], w, m)"
| "add_and_start_all w m (rq # rqs) =
     (case add_and_start_server w m (rq_path rq) (rq_transport rq) (rq_host rq) (rq_context rq)
             (rq_modes rq) (rq_log_level rq) of
        (Inl e, w', m') \<Rightarrow> (Inl e, w', m')
      | (Inr s, w', m') \<Rightarrow>
          (case add_and_start_all w' m' rqs of
             (Inl e, w'', m'') \<Rightarrow> (Inl e, w'', m'')
           | (Inr ss, w'', m'') \<Rightarrow> (Inr (s # ss), w'', m'')))"

text \<open>
  The names the specification expects for the \<open>c\<close>-th project with basename \<open>base\<close>:
  \<open>base\<close>, \<open>base_2\<close>, \<open>base_3\<close>, ...
\<close>

definition expected_name :: "pystr \<Rightarrow> nat \<Rightarrow> pystr" where
  "expected_name base c = (if c = 1 then base else base @ ascii ''_'' @ str_nat c)"

text \<open>Three requests whose paths have the basename \<open>proj\<close>.\<close>

definition same_base_requests :: "add_request list" where
  "same_base_requests =
     [\<lparr>rq_path = ascii ''/x/proj'', rq_transport = None, rq_host = None, rq_context = None, rq_modes = [], rq_log_level = None\<rparr>,
      \<lparr>rq_path = ascii ''/y/proj/'', rq_transport = None, rq_host = None, rq_context = None, rq_modes = [], rq_log_level = None\<rparr>,
      \<lparr>rq_path = ascii ''proj'', rq_transport = None, rq_host = None, rq_context = None, rq_modes = [], rq_log_level = None\<rparr>]"

text \<open>
  The invariant of the ports that \<open>find_free_port\<close> hands out: no duplicates, and with
  \<open>N\<close> registered workers every port lies in \<open>[9200, 9200 + 100 * N)\<close>.
\<close>

definition ports_ok :: "servers \<Rightarrow> bool" where
  "ports_ok m = (distinct (used_ports m)
      \<and> list_all (\<lambda>p. 9200 \<le> p \<and> p < 9200 + 100 * int (length m)) (used_ports m))"

section \<open>Content fingerprint (\<open>bsl_language_server.py\<close>, \<open>_compute_file_hash\<close>)\<close>

text \<open>
  \<open>content.replace("\r\n", "\n")\<close>: \<open>str.replace\<close> scans from the left and replaces the
  occurrences that do not overlap. Code point 13 is CR, 10 is LF.
\<close>

fun replace_crlf :: "pystr \<Rightarrow> pystr" where
  "replace_crlf [] = []"
| "replace_crlf [x] = [x]"
| "replace_crlf (x # y # xs) =
     (if x = 13 \<and> y = 10 then 10 # replace_crlf xs else x # replace_crlf (y # xs))"

text \<open>\<open>content.replace("\r", "\n")\<close>.\<close>

definition replace_cr :: "pystr \<Rightarrow> pystr" where
  "replace_cr xs = map (\<lambda>c. if c = 13 then 10 else c) xs"

definition normalize_newlines :: "pystr \<Rightarrow> pystr" where
  "normalize_newlines content = replace_cr (replace_crlf content)"

text \<open>
  \<open>_compute_file_hash\<close>. The file is \<open>None\<close> when opening or reading it raises, and then
  the result is the empty string. \<open>digest\<close> stands for
  \<open>hashlib.md5(content.encode("utf-8")).hexdigest()\<close>, which is not part of the
  repository.
\<close>

definition compute_file_hash :: "(pystr \<Rightarrow> pystr) \<Rightarrow> pystr option \<Rightarrow> pystr" where
  "compute_file_hash digest file =
     (case file of
        None \<Rightarrow> []
      | Some content \<Rightarrow> digest (normalize_newlines content))"

text \<open>
  The specification's "text with every lone CR replaced by LF": a CR counts as lone when
  no LF follows it.
\<close>

fun lone_cr_to_lf :: "pystr \<Rightarrow> pystr" where
  "lone_cr_to_lf [] = []"
| "lone_cr_to_lf [x] = [if x = 13 then 10 else x]"
| "lone_cr_to_lf (x # y # xs) =
     (if x = 13 \<and> y = 10 then 13 # 10 # lone_cr_to_lf xs
      else (if x = 13 then 10 else x) # lone_cr_to_lf (y # xs))"

text \<open>Whether the text holds a CR directly before a CR+LF pair.\<close>

fun has_cr_crlf :: "pystr \<Rightarrow> bool" where
  "has_cr_crlf (a # b # c # xs) = ((a = 13 \<and> b = 13 \<and> c = 10) \<or> has_cr_crlf (b # c # xs))"
| "has_cr_crlf xs = False"

section \<open>Parse results (\<open>bsl_parser.py\<close>, the dataclasses)\<close>

record bsl_param =
  param_name :: pystr
  param_byval :: bool
  param_default :: "pystr option"

record bsl_call_position =
  cp_call :: pystr
  cp_line :: nat
  cp_character :: nat

record bsl_module_var =
  mv_name :: pystr
  mv_is_export :: bool
  mv_description :: pystr

record bsl_method =
  m_name :: pystr
  m_line :: nat
  m_endline :: nat
  m_isproc :: bool
  m_is_export :: bool
  m_params :: "bsl_param list"
  m_description :: pystr
  m_context :: pystr
  m_calls_position :: "bsl_call_position list"

text \<open>
  \<open>str.lower()\<close>, on Basic Latin and on the Cyrillic capitals U+0400 to U+042F (which
  hold the Russian alphabet and the letter U+0401); every other code point is left as it
  is. The Unicode tables beyond these blocks are not reproduced.
\<close>

definition lower_cp :: "nat \<Rightarrow> nat" where
  "lower_cp c =
     (if 65 \<le> c \<and> c \<le> 90 then c + 32
      else if 1040 \<le> c \<and> c \<le> 1071 then c + 32
      else if 1024 \<le> c \<and> c \<le> 1039 then c + 80
      else c)"

definition py_lower :: "pystr \<Rightarrow> pystr" where
  "py_lower s = map lower_cp s"

section \<open>Symbol cache (\<open>bsl_cache.py\<close>, \<open>BSLCache\<close>)\<close>

record bsl_call_info =
  ci_filename :: pystr
  ci_call :: pystr
  ci_line :: nat
  ci_character :: nat
  ci_method_name :: pystr
  ci_module :: pystr

record bsl_module_info =
  mod_filename :: pystr
  mod_module :: pystr
  mod_type :: pystr
  mod_parenttype :: pystr
  mod_project :: pystr

record bsl_method_info =
  mi_method :: bsl_method
  mi_filename :: pystr
  mi_module :: pystr

text \<open>
  The dictionaries of the cache are association lists in insertion order, as Python keeps
  them; \<open>AList.update\<close> overwrites a key in place or appends a new one, \<open>AList.delete\<close>
  is \<open>dict.pop(key, None)\<close>. The lock is not modelled: operations run one at a time.
\<close>

record bsl_cache =
  methods :: "bsl_method_info list"
  module_vars :: "(pystr \<times> bsl_module_var list) list"
  calls :: "(pystr \<times> bsl_call_info list) list"
  modules :: "bsl_module_info list"
  method_name_index :: "(pystr \<times> nat list) list"
  method_module_index :: "(pystr \<times> nat list) list"
  method_export_index :: "nat list"

definition empty_cache :: bsl_cache where
  "empty_cache = \<lparr>methods = [], module_vars = [], calls = [], modules = [],
     method_name_index = [], method_module_index = [], method_export_index = []\<rparr>"

text \<open>\<^verbatim>\<open>if k not in d: d[k] = []\<close> followed by \<^verbatim>\<open>d[k].append(v)\<close>.\<close>

definition dict_append :: "'k \<Rightarrow> 'v \<Rightarrow> ('k \<times> 'v list) list \<Rightarrow> ('k \<times> 'v list) list" where
  "dict_append k v d = AList.update k ((case map_of d k of None \<Rightarrow> [] | Some l \<Rightarrow> l) @ [v]) d"

text \<open>
  The index updates for the method at position \<open>idx\<close>; the same statements stand in
  \<open>add_method\<close>, in \<open>add_methods_batch\<close> and in \<open>_rebuild_indices\<close>.
\<close>

definition index_method :: "nat \<Rightarrow> bsl_method_info \<Rightarrow> bsl_cache \<Rightarrow> bsl_cache" where
  "index_method idx info c =
     c\<lparr>method_name_index := dict_append (py_lower (m_name (mi_method info))) idx (method_name_index c),
       method_module_index :=
         (if mi_module info \<noteq> []
          then dict_append (py_lower (mi_module info)) idx (method_module_index c)
          else method_module_index c),
       method_export_index :=
         (if m_is_export (mi_method info) then method_export_index c @ [idx]
          else method_export_index c)\<rparr>"

definition add_method :: "bsl_cache \<Rightarrow> bsl_method \<Rightarrow> pystr \<Rightarrow> pystr \<Rightarrow> bsl_cache" where
  "add_method c method fname module =
     (let method_info = \<lparr>mi_method = method, mi_filename = fname, mi_module = module\<rparr>;
          index = length (methods c)
      in index_method index method_info (c\<lparr>methods := methods c @ [method_info]\<rparr>))"

definition add_module_var :: "bsl_cache \<Rightarrow> bsl_module_var \<Rightarrow> pystr \<Rightarrow> bsl_cache" where
  "add_module_var c var fname = c\<lparr>module_vars := dict_append fname var (module_vars c)\<rparr>"

definition add_call :: "bsl_cache \<Rightarrow> bsl_call_position \<Rightarrow> pystr \<Rightarrow> pystr \<Rightarrow> pystr \<Rightarrow> bsl_cache" where
  "add_call c call fname method_name module =
     (let call_name = cp_call call;
          call_info = \<lparr>ci_filename = fname, ci_call = call_name, ci_line = cp_line call,
                       ci_character = cp_character call, ci_method_name = method_name,
                       ci_module = module\<rparr>
      in c\<lparr>calls := dict_append call_name call_info (calls c)\<rparr>)"

definition add_methods_batch :: "bsl_cache \<Rightarrow> (bsl_method \<times> pystr \<times> pystr) list \<Rightarrow> bsl_cache" where
  "add_methods_batch c methods_data =
     fold (\<lambda>(method, fname, module) c'. add_method c' method fname module) methods_data c"

definition add_module_vars_batch :: "bsl_cache \<Rightarrow> (bsl_module_var \<times> pystr) list \<Rightarrow> bsl_cache" where
  "add_module_vars_batch c vars_data =
     fold (\<lambda>(var, fname) c'. add_module_var c' var fname) vars_data c"

definition add_calls_batch ::
  "bsl_cache \<Rightarrow> (bsl_call_position \<times> pystr \<times> pystr \<times> pystr) list \<Rightarrow> bsl_cache" where
  "add_calls_batch c calls_data =
     fold (\<lambda>(call, fname, method_name, module) c'. add_call c' call fname method_name module)
       calls_data c"

definition add_module :: "bsl_cache \<Rightarrow> bsl_module_info \<Rightarrow> bsl_cache" where
  "add_module c module_info = c\<lparr>modules := modules c @ [module_info]\<rparr>"

definition clear :: "bsl_cache \<Rightarrow> bsl_cache" where
  "clear c = empty_cache"

text \<open>\<open>_rebuild_indices\<close>: the three indices are emptied and filled from \<open>enumerate(self.methods)\<close>.\<close>

definition rebuild_indices :: "bsl_cache \<Rightarrow> bsl_cache" where
  "rebuild_indices c =
     fold (\<lambda>(idx, method_info) c'. index_method idx method_info c')
       (enumerate 0 (methods c))
       (c\<lparr>method_name_index := [], method_module_index := [], method_export_index := []\<rparr>)"

text \<open>\<open>list.pop(idx)\<close> raises \<open>IndexError\<close> for a position outside the list.\<close>

definition pop_at :: "nat \<Rightarrow> 'a list \<Rightarrow> error + 'a list" where
  "pop_at idx xs = (if idx < length xs then Inr (take idx xs @ drop (Suc idx) xs) else Inl IndexError)"

fun pop_all :: "nat list \<Rightarrow> 'a list \<Rightarrow> error + 'a list" where
  "pop_all [] xs = Inr xs"
| "pop_all (idx # rest) xs =
     (case pop_at idx xs of Inl e \<Rightarrow> Inl e | Inr xs' \<Rightarrow> pop_all rest xs')"

text \<open>
  The loop over \<open>self.calls.items()\<close>: a key whose filtered list is empty is noted for
  removal, any other key gets its filtered list.
\<close>

definition filter_calls_step ::
  "pystr \<Rightarrow> pystr \<times> bsl_call_info list \<Rightarrow> (pystr \<times> bsl_call_info list) list \<times> pystr list
     \<Rightarrow> (pystr \<times> bsl_call_info list) list \<times> pystr list" where
  "filter_calls_step fname item acc =
     (case (item, acc) of
        ((call_name, call_list), (d, calls_to_remove)) \<Rightarrow>
          let filtered_calls = filter (\<lambda>call. ci_filename call \<noteq> fname) call_list
          in if filtered_calls = [] then (d, calls_to_remove @ [call_name])
             else (AList.update call_name filtered_calls d, calls_to_remove))"

definition remove_file_data :: "bsl_cache \<Rightarrow> pystr \<Rightarrow> error + bsl_cache" where
  "remove_file_data c fname =
     (let indices_to_remove =
            filter (\<lambda>idx. mi_filename (methods c ! idx) = fname) (rev [0..<length (methods c)])
      in case pop_all indices_to_remove (methods c) of
           Inl e \<Rightarrow> Inl e
         | Inr ms \<Rightarrow>
             let c1 = rebuild_indices (c\<lparr>methods := ms\<rparr>);
                 c2 = c1\<lparr>module_vars := AList.delete fname (module_vars c1)\<rparr>;
                 (d, calls_to_remove) = fold (filter_calls_step fname) (calls c2) (calls c2, []);
                 c3 = c2\<lparr>calls := fold AList.delete calls_to_remove d\<rparr>
             in Inr (c3\<lparr>modules := filter (\<lambda>module. mod_filename module \<noteq> fname) (modules c3)\<rparr>))"

definition get_stats :: "bsl_cache \<Rightarrow> (string \<times> nat) list" where
  "get_stats c =
     [(''methods'', length (methods c)),
      (''exported_methods'', length (method_export_index c)),
      (''module_vars'', sum_list (map (\<lambda>(k, vars_list). length vars_list) (module_vars c))),
      (''calls'', sum_list (map (\<lambda>(k, calls_list). length calls_list) (calls c))),
      (''unique_calls'', length (calls c)),
      (''modules'', length (modules c))]"

text \<open>The operations that change the cache, and a sequence of them run from the empty cache.\<close>

datatype cache_op =
    Add_method bsl_method pystr pystr
  | Add_module_var bsl_module_var pystr
  | Add_call bsl_call_position pystr pystr pystr
  | Add_methods_batch "(bsl_method \<times> pystr \<times> pystr) list"
  | Add_module_vars_batch "(bsl_module_var \<times> pystr) list"
  | Add_calls_batch "(bsl_call_position \<times> pystr \<times> pystr \<times> pystr) list"
  | Add_module bsl_module_info
  | Clear
  | Remove_file_data pystr

fun apply_op :: "cache_op \<Rightarrow> bsl_cache \<Rightarrow> error + bsl_cache" where
  "apply_op (Add_method m f md) c = Inr (add_method c m f md)"
| "apply_op (Add_module_var v f) c = Inr (add_module_var c v f)"
| "apply_op (Add_call cl f mn md) c = Inr (add_call c cl f mn md)"
| "apply_op (Add_methods_batch ms) c = Inr (add_methods_batch c ms)"
| "apply_op (Add_module_vars_batch vs) c = Inr (add_module_vars_batch c vs)"
| "apply_op (Add_calls_batch cs) c = Inr (add_calls_batch c cs)"
| "apply_op (Add_module mi) c = Inr (add_module c mi)"
| "apply_op Clear c = Inr (clear c)"
| "apply_op (Remove_file_data f) c = remove_file_data c f"

fun run_ops :: "cache_op list \<Rightarrow> bsl_cache \<Rightarrow> error + bsl_cache" where
  "run_ops [] c = Inr c"
| "run_ops (op # ops) c = (case apply_op op c of Inl e \<Rightarrow> Inl e | Inr c' \<Rightarrow> run_ops ops c')"

text \<open>
  The positions of the methods that satisfy \<open>P\<close>, and what the specification asks of the
  indices: each index holds exactly the positions of the methods that belong in it
  (lower-cased name; lower-cased module when the module is not empty; exported).
\<close>

definition positions :: "('a \<Rightarrow> bool) \<Rightarrow> 'a list \<Rightarrow> nat list" where
  "positions P xs = filter (\<lambda>i. P (xs ! i)) [0..<length xs]"

definition index_entry :: "nat list \<Rightarrow> nat list option" where
  "index_entry ps = (if ps = [] then None else Some ps)"

definition indices_exact :: "bsl_cache \<Rightarrow> bool" where
  "indices_exact c =
     ((\<forall>k. map_of (method_name_index c) k
            = index_entry (positions (\<lambda>mi. py_lower (m_name (mi_method mi)) = k) (methods c)))
    \<and> (\<forall>k. map_of (method_module_index c) k
            = index_entry (positions (\<lambda>mi. mi_module mi \<noteq> [] \<and> py_lower (mi_module mi) = k) (methods c)))
    \<and> method_export_index c = positions (\<lambda>mi. m_is_export (mi_method mi)) (methods c))"

text \<open>The loop of \<open>_rebuild_indices\<close> over a list of methods, named for the proofs.\<close>

definition build :: "bsl_method_info list \<Rightarrow> bsl_cache \<Rightarrow> bsl_cache" where
  "build xs c = fold (\<lambda>(idx, method_info) c'. index_method idx method_info c') (enumerate 0 xs) c"

text \<open>
  Every index entry points to a position of \<open>methods\<close>, and every method is found in each
  index that should hold it.
\<close>

definition index_valid :: "bsl_cache \<Rightarrow> bool" where
  "index_valid c =
     (list_all (\<lambda>(k, ps). list_all (\<lambda>i. i < length (methods c)) ps) (method_name_index c)
    \<and> list_all (\<lambda>(k, ps). list_all (\<lambda>i. i < length (methods c)) ps) (method_module_index c)
    \<and> list_all (\<lambda>i. i < length (methods c)) (method_export_index c))"

definition lookup_index :: "(pystr \<times> nat list) list \<Rightarrow> pystr \<Rightarrow> nat list" where
  "lookup_index d k = (case map_of d k of None \<Rightarrow> [] | Some ps \<Rightarrow> ps)"

definition index_complete :: "bsl_cache \<Rightarrow> bool" where
  "index_complete c =
     list_all (\<lambda>i.
        let mi = methods c ! i in
          i \<in> set (lookup_index (method_name_index c) (py_lower (m_name (mi_method mi))))
        \<and> (if mi_module mi \<noteq> []
            then i \<in> set (lookup_index (method_module_index c) (py_lower (mi_module mi)))
            else True)
        \<and> (if m_is_export (mi_method mi) then i \<in> set (method_export_index c) else True))
       [0..<length (methods c)]"

text \<open>What a file leaves behind in the four collections: nothing.\<close>

definition file_absent :: "pystr \<Rightarrow> bsl_cache \<Rightarrow> bool" where
  "file_absent fname c =
     (list_all (\<lambda>mi. mi_filename mi \<noteq> fname) (methods c)
    \<and> fname \<notin> set (map fst (module_vars c))
    \<and> list_all (\<lambda>(k, l). list_all (\<lambda>call. ci_filename call \<noteq> fname) l) (calls c)
    \<and> list_all (\<lambda>module. mod_filename module \<noteq> fname) (modules c))"

definition no_empty_calls :: "bsl_cache \<Rightarrow> bool" where
  "no_empty_calls c = list_all (\<lambda>(k, l). l \<noteq> []) (calls c)"

text \<open>Python dictionaries hold every key once.\<close>

definition dicts_wf :: "bsl_cache \<Rightarrow> bool" where
  "dicts_wf c =
     (distinct (map fst (module_vars c)) \<and> distinct (map fst (calls c))
    \<and> distinct (map fst (method_name_index c)) \<and> distinct (map fst (method_module_index c)))"

text \<open>
  A small cache: the methods \<open>Foo\<close> (exported) and \<open>Baz\<close> of file \<open>a.bsl\<close>, the method
  \<open>foo\<close> of file \<open>b.bsl\<close>, a module variable of \<open>a.bsl\<close>, and calls of \<open>Bar\<close> from both
  files and of \<open>Qux\<close> from \<open>a.bsl\<close> only.
\<close>

definition demo_method :: "pystr \<Rightarrow> bool \<Rightarrow> bsl_method" where
  "demo_method nm ex =
     \<lparr>m_name = nm, m_line = 0, m_endline = 2, m_isproc = True, m_is_export = ex, m_params = [],
      m_description = [], m_context = [], m_calls_position = []\<rparr>"

definition demo_ops :: "cache_op list" where
  "demo_ops =
     [Add_method (demo_method (ascii ''Foo'') True) (ascii ''a.bsl'') (ascii ''ModA''),
      Add_method (demo_method (ascii ''foo'') False) (ascii ''b.bsl'') (ascii ''ModB''),
      Add_method (demo_method (ascii ''Baz'') True) (ascii ''a.bsl'') [],
      Add_module_var \<lparr>mv_name = ascii ''V'', mv_is_export = False, mv_description = []\<rparr> (ascii ''a.bsl''),
      Add_call \<lparr>cp_call = ascii ''Bar'', cp_line = 1, cp_character = 4\<rparr> (ascii ''a.bsl'') (ascii ''Foo'') (ascii ''ModA''),
      Add_call \<lparr>cp_call = ascii ''Bar'', cp_line = 1, cp_character = 2\<rparr> (ascii ''b.bsl'') (ascii ''foo'') (ascii ''ModB''),
      Add_call \<lparr>cp_call = ascii ''Qux'', cp_line = 1, cp_character = 9\<rparr> (ascii ''a.bsl'') (ascii ''Baz'') [],
      Add_module \<lparr>mod_filename = ascii ''a.bsl'', mod_module = ascii ''ModA'', mod_type = [],
                  mod_parenttype = [], mod_project = []\<rparr>]"

definition demo_cache :: bsl_cache where
  "demo_cache = (case run_ops demo_ops empty_cache of Inr c \<Rightarrow> c | Inl e \<Rightarrow> empty_cache)"

section \<open>Cache statistics file (\<open>bsl_language_server.py\<close>, \<open>_save_cache_stats\<close>)\<close>

text \<open>
  The JSON document of \<open>cache_stats.json\<close>. The \<open>bsl\<close> block is a dictionary of counts;
  it is \<open>None\<close> when the key is missing or null.
\<close>

record cache_stats_doc =
  indexed_files :: nat
  language :: pystr
  last_updated :: pystr
  bsl :: "(string \<times> nat) list option"

text \<open>
  What the function finds at the path of the statistics file: no file; a file that cannot
  be opened or is not JSON (\<open>OSError\<close>, \<open>JSONDecodeError\<close>: caught and ignored); JSON
  that is not a mapping (\<open>existing.get\<close> raises \<open>AttributeError\<close>, which only the outer
  handler catches); or a document.
\<close>

datatype stats_file = No_file | Unreadable | Not_a_mapping | Stats_doc cache_stats_doc

text \<open>The fields of the language server that the function reads.\<close>

record bsl_server =
  document_symbols_cache_is_modified :: bool
  local_cache :: bsl_cache
  document_symbols_cache_size :: nat
  language_id :: pystr

text \<open>\<open>d.get(key, default)\<close>.\<close>

definition dict_get :: "('k \<times> 'v) list \<Rightarrow> 'k \<Rightarrow> 'v \<Rightarrow> 'v" where
  "dict_get d k dflt = (case map_of d k of None \<Rightarrow> dflt | Some v \<Rightarrow> v)"

text \<open>
  The block that goes into the new document: the in-memory counts, or the previous block
  when the in-memory cache has no methods and the previous file has a block with a
  positive method count.
\<close>

definition choose_bsl_stats :: "bsl_server \<Rightarrow> stats_file \<Rightarrow> error + (string \<times> nat) list" where
  "choose_bsl_stats s prev =
     (let bsl_stats = get_stats (local_cache s) in
      if dict_get bsl_stats ''methods'' 0 = 0 \<and> prev \<noteq> No_file then
        (case prev of
           No_file \<Rightarrow> Inr bsl_stats
         | Unreadable \<Rightarrow> Inr bsl_stats
         | Not_a_mapping \<Rightarrow> Inl AttributeError
         | Stats_doc existing \<Rightarrow>
             (case bsl existing of
                None \<Rightarrow> Inr bsl_stats
              | Some b \<Rightarrow> if b \<noteq> [] \<and> dict_get b ''methods'' 0 > 0 then Inr b else Inr bsl_stats))
      else Inr bsl_stats)"

text \<open>
  \<open>_save_cache_stats\<close>. The result is the document written to the file, or \<open>None\<close> when
  the file is not written: the dirty flag is clear, or an exception was caught by the outer
  handler (\<open>can_write\<close> tells whether creating the directory and writing succeed). \<open>now\<close> is
  the time stamp.
\<close>

definition save_cache_stats :: "bsl_server \<Rightarrow> stats_file \<Rightarrow> pystr \<Rightarrow> bool \<Rightarrow> cache_stats_doc option" where
  "save_cache_stats s prev now can_write =
     (if \<not> document_symbols_cache_is_modified s then None
      else
        (case choose_bsl_stats s prev of
           Inl e \<Rightarrow> None
         | Inr bsl_stats \<Rightarrow>
             if can_write
             then Some \<lparr>indexed_files = document_symbols_cache_size s, language = language_id s,
                        last_updated = now, bsl = Some bsl_stats\<rparr>
             else None))"

text \<open>A server after a restart without changes, and the statistics of the run before.\<close>

definition demo_bsl_server :: bsl_server where
  "demo_bsl_server =
     \<lparr>document_symbols_cache_is_modified = True, local_cache = empty_cache,
      document_symbols_cache_size = 7, language_id = ascii ''bsl''\<rparr>"

definition demo_stats_doc :: cache_stats_doc where
  "demo_stats_doc =
     \<lparr>indexed_files = 7, language = ascii ''bsl'', last_updated = ascii ''2026-01-01T00:00:00+00:00'',
      bsl = Some [(''methods'', 12), (''exported_methods'', 3), (''module_vars'', 1), (''calls'', 40),
                  (''unique_calls'', 9), (''modules'', 0)]\<rparr>"

section \<open>Python strings and regular expressions, as far as the parser uses them\<close>

text \<open>
  \<open>str.isspace\<close> and the class \<open>\s\<close> of \<open>re\<close> (the same set of code points), and the
  class \<open>\w\<close>: letters, digits and the underscore. For \<open>\w\<close> the letters of Basic Latin
  and of the Cyrillic blocks U+0400 to U+052F are covered; the Unicode tables beyond them
  are not reproduced. No proof below depends on which code points the classes hold.
\<close>

definition is_space :: "nat \<Rightarrow> bool" where
  "is_space c =
     ((9 \<le> c \<and> c \<le> 13) \<or> (28 \<le> c \<and> c \<le> 32) \<or> c = 133 \<or> c = 160 \<or> c = 5760
      \<or> (8192 \<le> c \<and> c \<le> 8202) \<or> c = 8232 \<or> c = 8233 \<or> c = 8239 \<or> c = 8287 \<or> c = 12288)"

definition is_word :: "nat \<Rightarrow> bool" where
  "is_word c =
     ((48 \<le> c \<and> c \<le> 57) \<or> (65 \<le> c \<and> c \<le> 90) \<or> c = 95 \<or> (97 \<le> c \<and> c \<le> 122)
      \<or> (1024 \<le> c \<and> c \<le> 1153) \<or> (1162 \<le> c \<and> c \<le> 1327))"

text \<open>\<open>s.strip()\<close>, \<open>s.lstrip()\<close>, \<open>s[a:b]\<close> for indices that are not negative, \<open>sep.join\<close>.\<close>

definition lstrip :: "pystr \<Rightarrow> pystr" where
  "lstrip s = dropWhile is_space s"

definition strip :: "pystr \<Rightarrow> pystr" where
  "strip s = rev (dropWhile is_space (rev (dropWhile is_space s)))"

definition slice :: "'a list \<Rightarrow> nat \<Rightarrow> nat \<Rightarrow> 'a list" where
  "slice s a b = take (b - a) (drop a s)"

fun join :: "pystr \<Rightarrow> pystr list \<Rightarrow> pystr" where
  "join sep [] = []"
| "join sep [x] = x"
| "join sep (x # y # ys) = x @ sep @ join sep (y # ys)"

text \<open>\<open>s.startswith(p)\<close>, \<open>sub in s\<close> and \<open>s.find(sub, start)\<close> (\<open>None\<close> stands for \<open>-1\<close>).\<close>

fun startswith :: "pystr \<Rightarrow> pystr \<Rightarrow> bool" where
  "startswith s [] = True"
| "startswith [] (p # ps) = False"
| "startswith (x # xs) (p # ps) = (x = p \<and> startswith xs ps)"

fun contains :: "pystr \<Rightarrow> pystr \<Rightarrow> bool" where
  "contains sub [] = (sub = [])"
| "contains sub (x # xs) = (startswith (x # xs) sub \<or> contains sub xs)"

fun find_in :: "pystr \<Rightarrow> pystr \<Rightarrow> nat list \<Rightarrow> nat option" where
  "find_in s sub [] = None"
| "find_in s sub (i # is) = (if startswith (drop i s) sub then Some i else find_in s sub is)"

definition str_find :: "pystr \<Rightarrow> pystr \<Rightarrow> nat \<Rightarrow> nat option" where
  "str_find s sub pos = find_in s sub [pos..<Suc (length s)]"

text \<open>\<open>source.split("\n")\<close>: the pieces between the separators; there is always one piece.\<close>

fun str_split :: "nat \<Rightarrow> pystr \<Rightarrow> pystr list" where
  "str_split sep [] = [[]]"
| "str_split sep (x # xs) =
     (if x = sep then [] # str_split sep xs
      else (case str_split sep xs of [] \<Rightarrow> [[x]] | l # ls \<Rightarrow> (x # l) # ls))"

text \<open>\<open>lines[i]\<close> for an index that is not negative.\<close>

definition nth_err :: "'a list \<Rightarrow> nat \<Rightarrow> error + 'a" where
  "nth_err xs i = (if i < length xs then Inr (xs ! i) else Inl IndexError)"

text \<open>
  The regular expressions of the parser, all compiled with \<open>re.IGNORECASE\<close>: a literal
  character (compared after lower-casing), a character class, sequence, ordered
  alternative, greedy option and repetition, a capturing group, \<open>^\<close> under
  \<open>re.MULTILINE\<close>, and \<open>\b\<close>. \<open>Ident\<close> is the class of the names: the small and the capital letters of the
  Russian alphabet, given by the code points of its ranges, and \<open>\w\<close>.
\<close>

datatype cclass = Space | Ident | NoneOf "nat list"

datatype regex =
    Eps
  | Chr nat
  | Cls cclass
  | Seq regex regex
  | Alt regex regex
  | Opt regex
  | Star regex
  | Grp nat regex
  | Bol
  | WordB

definition many1 :: "regex \<Rightarrow> regex" where
  "many1 r = Seq r (Star r)"

definition lit :: "pystr \<Rightarrow> regex" where
  "lit s = foldr (\<lambda>c r. Seq (Chr c) r) s Eps"

fun seqs :: "regex list \<Rightarrow> regex" where
  "seqs [] = Eps"
| "seqs [r] = r"
| "seqs (r # rs) = Seq r (seqs rs)"

fun in_class :: "cclass \<Rightarrow> nat \<Rightarrow> bool" where
  "in_class Space c = is_space c"
| "in_class Ident c =
     ((1072 \<le> c \<and> c \<le> 1103) \<or> c = 1105 \<or> (1040 \<le> c \<and> c \<le> 1071) \<or> c = 1025 \<or> is_word c)"
| "in_class (NoneOf cs) c = (c \<notin> set cs)"

definition word_boundary :: "pystr \<Rightarrow> nat \<Rightarrow> bool" where
  "word_boundary s i =
     ((0 < i \<and> i \<le> length s \<and> is_word (s ! (i - 1))) \<noteq> (i < length s \<and> is_word (s ! i)))"

text \<open>
  The groups that have matched, with their spans. The matcher backtracks as \<open>re\<close> does:
  it is written with a continuation that receives the position and the groups reached
  and answers whether the rest of the pattern matches from there.
\<close>

type_synonym groups = "(nat \<times> nat \<times> nat) list"

type_synonym 'r matcher = "nat \<Rightarrow> groups \<Rightarrow> (nat \<Rightarrow> groups \<Rightarrow> 'r option) \<Rightarrow> 'r option"

text \<open>
  Greedy repetition: one more round that moves forward is tried first, then the rest of
  the pattern. \<open>n\<close> bounds the rounds; \<open>rmatch\<close> passes more than the text has characters.
\<close>

fun star_loop :: "nat \<Rightarrow> 'r matcher \<Rightarrow> 'r matcher" where
  "star_loop 0 f i g k = k i g"
| "star_loop (Suc n) f i g k =
     (case f i g (\<lambda>j g'. if i < j then star_loop n f j g' k else None) of
        Some r \<Rightarrow> Some r
      | None \<Rightarrow> k i g)"

primrec rmatch :: "regex \<Rightarrow> pystr \<Rightarrow> 'r matcher" where
  "rmatch Eps s i g k = k i g"
| "rmatch (Chr c) s i g k =
     (if i < length s \<and> lower_cp (s ! i) = lower_cp c then k (Suc i) g else None)"
| "rmatch (Cls cl) s i g k =
     (if i < length s \<and> in_class cl (s ! i) then k (Suc i) g else None)"
| "rmatch (Seq a b) s i g k = rmatch a s i g (\<lambda>j g'. rmatch b s j g' k)"
| "rmatch (Alt a b) s i g k =
     (case rmatch a s i g k of Some r \<Rightarrow> Some r | None \<Rightarrow> rmatch b s i g k)"
| "rmatch (Opt a) s i g k =
     (case rmatch a s i g k of Some r \<Rightarrow> Some r | None \<Rightarrow> k i g)"
| "rmatch (Star a) s i g k = star_loop (Suc (length s - i)) (rmatch a s) i g k"
| "rmatch (Grp n a) s i g k = rmatch a s i g (\<lambda>j g'. k j (AList.update n (i, j) g'))"
| "rmatch Bol s i g k = (if i = 0 \<or> (i \<le> length s \<and> s ! (i - 1) = 10) then k i g else None)"
| "rmatch WordB s i g k = (if word_boundary s i then k i g else None)"

text \<open>A match object: \<open>start()\<close>, \<open>end()\<close> and the spans of the groups that took part.\<close>

record re_match =
  re_start :: nat
  re_end :: nat
  re_groups :: groups

definition match_at :: "regex \<Rightarrow> pystr \<Rightarrow> nat \<Rightarrow> re_match option" where
  "match_at r s i =
     rmatch r s i [] (\<lambda>j g. Some \<lparr>re_start = i, re_end = j, re_groups = g\<rparr>)"

text \<open>\<open>pattern.search(s, pos)\<close>: the match at the first position that has one.\<close>

fun first_match :: "regex \<Rightarrow> pystr \<Rightarrow> nat list \<Rightarrow> re_match option" where
  "first_match r s [] = None"
| "first_match r s (i # is) =
     (case match_at r s i of Some m \<Rightarrow> Some m | None \<Rightarrow> first_match r s is)"

definition search :: "regex \<Rightarrow> pystr \<Rightarrow> nat \<Rightarrow> re_match option" where
  "search r s pos = first_match r s [pos..<Suc (length s)]"

text \<open>The groups that a pattern sets in every match.\<close>

fun must_groups :: "regex \<Rightarrow> nat set" where
  "must_groups (Seq a b) = must_groups a \<union> must_groups b"
| "must_groups (Alt a b) = must_groups a \<inter> must_groups b"
| "must_groups (Grp n a) = insert n (must_groups a)"
| "must_groups r = {}"

lemma star_loop_reaches:
  assumes f: "\<And>i g k x. f i g k = Some x \<Longrightarrow> i \<le> N \<Longrightarrow>
                \<exists>j g'. i \<le> j \<and> j \<le> N \<and> fst ` set g \<subseteq> fst ` set g' \<and> k j g' = Some x"
    and "star_loop n f i g k = Some x" and "i \<le> N"
  shows "\<exists>j g'. i \<le> j \<and> j \<le> N \<and> fst ` set g \<subseteq> fst ` set g' \<and> k j g' = Some x"
  using assms(2,3)
proof (induction n arbitrary: i g)
  case 0
  then show ?case by auto
next
  case (Suc n)
  let ?k' = "\<lambda>j g'. if i < j then star_loop n f j g' k else None"
  show ?case
  proof (cases "f i g ?k'")
    case None
    with Suc.prems show ?thesis by auto
  next
    case (Some r)
    with Suc.prems have "r = x" by simp
    with Some f[of i g ?k' x] Suc.prems(2) obtain j g' where
      j: "i \<le> j" "j \<le> N" "fst ` set g \<subseteq> fst ` set g'" "?k' j g' = Some x" by blast
    then have "star_loop n f j g' k = Some x" by (auto split: if_splits)
    from Suc.IH[OF this j(2)] obtain j' g'' where
      "j \<le> j'" "j' \<le> N" "fst ` set g' \<subseteq> fst ` set g''" "k j' g'' = Some x" by blast
    with j show ?thesis by (meson order_trans)
  qed
qed

lemma rmatch_reaches:
  assumes "rmatch r s i g k = Some (x::'r)" and "i \<le> length s"
  shows "\<exists>j g'. i \<le> j \<and> j \<le> length s
           \<and> fst ` set g \<union> must_groups r \<subseteq> fst ` set g' \<and> k j g' = Some x"
  using assms
proof (induction r arbitrary: i g k x)
  case Eps
  then have "k i g = Some x" by simp
  with Eps.prems(2) show ?case by (intro exI[of _ i] exI[of _ g]) simp
next
  case (Chr c)
  then have "i < length s" "k (Suc i) g = Some x" by (simp_all split: if_splits)
  then show ?case by (intro exI[of _ "Suc i"] exI[of _ g]) simp
next
  case (Cls cl)
  then have "i < length s" "k (Suc i) g = Some x" by (simp_all split: if_splits)
  then show ?case by (intro exI[of _ "Suc i"] exI[of _ g]) simp
next
  case (Seq a b)
  from Seq.prems have "rmatch a s i g (\<lambda>j g'. rmatch b s j g' k) = Some x" by simp
  from Seq.IH(1)[OF this Seq.prems(2)] obtain j g' where
    j: "i \<le> j" "j \<le> length s" "fst ` set g \<union> must_groups a \<subseteq> fst ` set g'"
       "rmatch b s j g' k = Some x" by blast
  from Seq.IH(2)[OF j(4) j(2)] obtain j' g'' where
    j': "j \<le> j'" "j' \<le> length s" "fst ` set g' \<union> must_groups b \<subseteq> fst ` set g''"
        "k j' g'' = Some x"
    by blast
  have le: "i \<le> j'" using j(1) j'(1) by simp
  have sub: "fst ` set g \<union> must_groups (Seq a b) \<subseteq> fst ` set g''"
  proof -
    from j(3) have a: "fst ` set g \<subseteq> fst ` set g'" "must_groups a \<subseteq> fst ` set g'" by simp_all
    from j'(3) have b: "fst ` set g' \<subseteq> fst ` set g''" "must_groups b \<subseteq> fst ` set g''" by simp_all
    have "fst ` set g \<subseteq> fst ` set g''" using a(1) b(1) by (rule subset_trans)
    moreover have "must_groups a \<subseteq> fst ` set g''" using a(2) b(1) by (rule subset_trans)
    ultimately show ?thesis using b(2) by simp
  qed
  show ?case by (intro exI[of _ j'] exI[of _ g'']) (simp only: le j'(2) sub j'(4) simp_thms)
next
  case (Alt a b)
  have "rmatch a s i g k = Some x \<or> rmatch b s i g k = Some x"
    using Alt.prems(1) by (cases "rmatch a s i g k") simp_all
  then show ?case
  proof
    assume "rmatch a s i g k = Some x"
    from Alt.IH(1)[OF this Alt.prems(2)] obtain j g' where
      j: "i \<le> j" "j \<le> length s" "fst ` set g \<union> must_groups a \<subseteq> fst ` set g'" "k j g' = Some x"
      by blast
    from j(3) have "fst ` set g \<union> must_groups (Alt a b) \<subseteq> fst ` set g'" by auto
    with j show ?thesis by blast
  next
    assume "rmatch b s i g k = Some x"
    from Alt.IH(2)[OF this Alt.prems(2)] obtain j g' where
      j: "i \<le> j" "j \<le> length s" "fst ` set g \<union> must_groups b \<subseteq> fst ` set g'" "k j g' = Some x"
      by blast
    from j(3) have "fst ` set g \<union> must_groups (Alt a b) \<subseteq> fst ` set g'" by auto
    with j show ?thesis by blast
  qed
next
  case (Opt a)
  have "rmatch a s i g k = Some x \<or> k i g = Some x"
    using Opt.prems(1) by (cases "rmatch a s i g k") simp_all
  then show ?case
  proof
    assume "rmatch a s i g k = Some x"
    from Opt.IH[OF this Opt.prems(2)] obtain j g' where
      j: "i \<le> j" "j \<le> length s" "fst ` set g \<union> must_groups a \<subseteq> fst ` set g'" "k j g' = Some x"
      by blast
    from j(3) have "fst ` set g \<union> must_groups (Opt a) \<subseteq> fst ` set g'" by simp
    with j show ?thesis by blast
  next
    assume "k i g = Some x"
    with Opt.prems(2) show ?thesis by (intro exI[of _ i] exI[of _ g]) simp
  qed
next
  case (Star a)
  have f: "\<exists>j g'. i \<le> j \<and> j \<le> length s \<and> fst ` set g \<subseteq> fst ` set g' \<and> k j g' = Some x"
    if "rmatch a s i g k = Some x" "i \<le> length s" for i g k and x :: 'r
  proof -
    from Star.IH[OF that] obtain j g' where
      j: "i \<le> j" "j \<le> length s" "fst ` set g \<union> must_groups a \<subseteq> fst ` set g'" "k j g' = Some x"
      by blast
    from j(3) have "fst ` set g \<subseteq> fst ` set g'" by simp
    with j show ?thesis by blast
  qed
  from Star.prems have "star_loop (Suc (length s - i)) (rmatch a s) i g k = Some x" by simp
  from star_loop_reaches[of "rmatch a s" "length s", OF f this Star.prems(2)]
  show ?case by simp
next
  case (Grp n a)
  from Grp.prems have "rmatch a s i g (\<lambda>j g'. k j (AList.update n (i, j) g')) = Some x" by simp
  from Grp.IH[OF this Grp.prems(2)] obtain j g' where
    j: "i \<le> j" "j \<le> length s" "fst ` set g \<union> must_groups a \<subseteq> fst ` set g'"
       "k j (AList.update n (i, j) g') = Some x" by blast
  have "fst ` set g \<union> must_groups (Grp n a) \<subseteq> fst ` set (AList.update n (i, j) g')"
    using j(3) by (auto simp: dom_update)
  with j show ?case by blast
next
  case Bol
  then have "k i g = Some x" by (simp split: if_splits)
  with Bol.prems(2) show ?case by (intro exI[of _ i] exI[of _ g]) simp
next
  case WordB
  then have "k i g = Some x" by (simp split: if_splits)
  with WordB.prems(2) show ?case by (intro exI[of _ i] exI[of _ g]) simp
qed

lemma match_at_bounds:
  assumes "match_at r s i = Some m" and "i \<le> length s"
  shows "re_start m = i \<and> i \<le> re_end m \<and> re_end m \<le> length s
       \<and> must_groups r \<subseteq> fst ` set (re_groups m)"
proof -
  from rmatch_reaches[OF assms(1)[unfolded match_at_def] assms(2)]
  show ?thesis by auto
qed

lemma first_match_bounds:
  assumes "first_match r s is = Some m" and "\<forall>i \<in> set is. pos \<le> i \<and> i \<le> length s"
  shows "pos \<le> re_start m \<and> re_start m \<le> re_end m \<and> re_end m \<le> length s
       \<and> must_groups r \<subseteq> fst ` set (re_groups m)"
  using assms
proof (induction "is")
  case Nil
  then show ?case by simp
next
  case (Cons i "is")
  show ?case
  proof (cases "match_at r s i")
    case None
    with Cons show ?thesis by simp
  next
    case (Some m')
    with Cons.prems have "m' = m" by simp
    with Some match_at_bounds[of r s i m] Cons.prems(2) show ?thesis by simp
  qed
qed

lemma search_bounds:
  assumes "search r s pos = Some m"
  shows "pos \<le> re_start m \<and> re_start m \<le> re_end m \<and> re_end m \<le> length s
       \<and> must_groups r \<subseteq> fst ` set (re_groups m)"
proof -
  have "\<forall>i \<in> set [pos..<Suc (length s)]. pos \<le> i \<and> i \<le> length s" by auto
  from first_match_bounds[OF assms[unfolded search_def] this] show ?thesis .
qed

text \<open>
  \<open>pattern.finditer(s)\<close>: the matches from left to right, each search starting where the
  match before ended (one further after an empty match; no pattern of the parser matches
  the empty string).
\<close>

function finditer_from :: "regex \<Rightarrow> pystr \<Rightarrow> nat \<Rightarrow> re_match list" where
  "finditer_from r s pos =
     (case search r s pos of
        None \<Rightarrow> []
      | Some m \<Rightarrow>
          m # finditer_from r s (if re_end m = re_start m then Suc (re_end m) else re_end m))"
  by pat_completeness auto
termination
proof (relation "measure (\<lambda>(r, s, pos). Suc (length s) - pos)", goal_cases)
  case 1
  then show ?case by simp
next
  case (2 r s pos m)
  from search_bounds[OF 2] show ?case by auto
qed

declare finditer_from.simps [simp del]

definition finditer :: "regex \<Rightarrow> pystr \<Rightarrow> re_match list" where
  "finditer r s = finditer_from r s 0"

text \<open>\<open>match.group(n)\<close>: the text of the group, \<open>None\<close> when it took no part in the match.\<close>

definition match_group :: "pystr \<Rightarrow> re_match \<Rightarrow> nat \<Rightarrow> pystr option" where
  "match_group s m n =
     (if n = 0 then Some (slice s (re_start m) (re_end m))
      else map_option (\<lambda>(a, b). slice s a b) (map_of (re_groups m) n))"

section \<open>Shallow parser (\<open>bsl_parser.py\<close>, \<open>BSLParser\<close>)\<close>

text \<open>
  The Cyrillic words of the patterns, as code points. The names transliterate them:
  \<open>s_Procedura\<close> is the keyword for a procedure, \<open>s_Funkciya\<close> for a function,
  \<open>s_Eksport\<close> the export marker, \<open>s_Znach\<close> the by-value marker, \<open>s_Perem\<close> the
  variable keyword; \<open>s_eksport\<close> and \<open>s_znach\<close> are the lower-case spellings tested by
  the code.
\<close>

definition s_Procedura :: pystr where
  "s_Procedura = [1055, 1088, 1086, 1094, 1077, 1076, 1091, 1088, 1072]"

definition s_Funkciya :: pystr where
  "s_Funkciya = [1060, 1091, 1085, 1082, 1094, 1080, 1103]"

definition s_KonecProcedury :: pystr where
  "s_KonecProcedury = [1050, 1086, 1085, 1077, 1094, 1055, 1088, 1086, 1094, 1077, 1076, 1091, 1088, 1099]"

definition s_KonecFunkcii :: pystr where
  "s_KonecFunkcii = [1050, 1086, 1085, 1077, 1094, 1060, 1091, 1085, 1082, 1094, 1080, 1080]"

definition s_NaServere :: pystr where
  "s_NaServere = [1053, 1072, 1057, 1077, 1088, 1074, 1077, 1088, 1077]"

definition s_NaKliente :: pystr where
  "s_NaKliente = [1053, 1072, 1050, 1083, 1080, 1077, 1085, 1090, 1077]"

definition s_NaServereBezKonteksta :: pystr where
  "s_NaServereBezKonteksta = [1053, 1072, 1057, 1077, 1088, 1074, 1077, 1088, 1077, 1041, 1077, 1079, 1050, 1086, 1085, 1090, 1077, 1082, 1089, 1090, 1072]"

definition s_Eksport :: pystr where
  "s_Eksport = [1069, 1082, 1089, 1087, 1086, 1088, 1090]"

definition s_eksport :: pystr where
  "s_eksport = [1101, 1082, 1089, 1087, 1086, 1088, 1090]"

definition s_Znach :: pystr where
  "s_Znach = [1047, 1085, 1072, 1095]"

definition s_znach :: pystr where
  "s_znach = [1079, 1085, 1072, 1095]"

definition s_Perem :: pystr where
  "s_Perem = [1055, 1077, 1088, 1077, 1084]"

text \<open>
  \<open>KEYWORDS\<close>: the lower-case words that are never recorded as calls, in the order of
  the source. Transliterated:
  esli, inache, inacheesli, konecesli, poka, koneccikla, dlya, kazhdogo, iz, cikl,
  procedura, funkciya, konecprocedury, konecfunkcii, vozvrat, prervat, prodolzhit,
  popytka, isklyuchenie, vyzvatisklyuchenie, novyj, tip, tipznch, neopredeleno,
  istina, lozh, soobschit, soobscheniepolzovatelyu, pustayastroka, strshablon,
  naservere, nakliente, naserverebezkonteksta, eksport, znach, perem, konecoblasti,
  oblast.
\<close>

definition KEYWORDS :: "pystr list" where
  "KEYWORDS =
     [[1077, 1089, 1083, 1080],
      [1080, 1085, 1072, 1095, 1077],
      [1080, 1085, 1072, 1095, 1077, 1077, 1089, 1083, 1080],
      [1082, 1086, 1085, 1077, 1094, 1077, 1089, 1083, 1080],
      [1087, 1086, 1082, 1072],
      [1082, 1086, 1085, 1077, 1094, 1094, 1080, 1082, 1083, 1072],
      [1076, 1083, 1103],
      [1082, 1072, 1078, 1076, 1086, 1075, 1086],
      [1080, 1079],
      [1094, 1080, 1082, 1083],
      [1087, 1088, 1086, 1094, 1077, 1076, 1091, 1088, 1072],
      [1092, 1091, 1085, 1082, 1094, 1080, 1103],
      [1082, 1086, 1085, 1077, 1094, 1087, 1088, 1086, 1094, 1077, 1076, 1091, 1088, 1099],
      [1082, 1086, 1085, 1077, 1094, 1092, 1091, 1085, 1082, 1094, 1080, 1080],
      [1074, 1086, 1079, 1074, 1088, 1072, 1090],
      [1087, 1088, 1077, 1088, 1074, 1072, 1090, 1100],
      [1087, 1088, 1086, 1076, 1086, 1083, 1078, 1080, 1090, 1100],
      [1087, 1086, 1087, 1099, 1090, 1082, 1072],
      [1080, 1089, 1082, 1083, 1102, 1095, 1077, 1085, 1080, 1077],
      [1074, 1099, 1079, 1074, 1072, 1090, 1100, 1080, 1089, 1082, 1083, 1102, 1095, 1077, 1085, 1080, 1077],
      [1085, 1086, 1074, 1099, 1081],
      [1090, 1080, 1087],
      [1090, 1080, 1087, 1079, 1085, 1095],
      [1085, 1077, 1086, 1087, 1088, 1077, 1076, 1077, 1083, 1077, 1085, 1086],
      [1080, 1089, 1090, 1080, 1085, 1072],
      [1083, 1086, 1078, 1100],
      [1089, 1086, 1086, 1073, 1097, 1080, 1090, 1100],
      [1089, 1086, 1086, 1073, 1097, 1077, 1085, 1080, 1077, 1087, 1086, 1083, 1100, 1079, 1086, 1074, 1072, 1090, 1077, 1083, 1102],
      [1087, 1091, 1089, 1090, 1072, 1103, 1089, 1090, 1088, 1086, 1082, 1072],
      [1089, 1090, 1088, 1096, 1072, 1073, 1083, 1086, 1085],
      [1085, 1072, 1089, 1077, 1088, 1074, 1077, 1088, 1077],
      [1085, 1072, 1082, 1083, 1080, 1077, 1085, 1090, 1077],
      [1085, 1072, 1089, 1077, 1088, 1074, 1077, 1088, 1077, 1073, 1077, 1079, 1082, 1086, 1085, 1090, 1077, 1082, 1089, 1090, 1072],
      [1101, 1082, 1089, 1087, 1086, 1088, 1090],
      [1079, 1085, 1072, 1095],
      [1087, 1077, 1088, 1077, 1084],
      [1082, 1086, 1085, 1077, 1094, 1086, 1073, 1083, 1072, 1089, 1090, 1080],
      [1086, 1073, 1083, 1072, 1089, 1090, 1100]]"
text \<open>
  The compiled patterns. \<open>method_pattern\<close> is the shape that \<open>PROC_PATTERN\<close> and
  \<open>FUNC_PATTERN\<close> share: line start, blanks, an optional context directive, blanks, an
  optional export marker, the keyword, blanks, the name (group 1), blanks, an opening
  parenthesis. Code point 38 is the ampersand, 40 and 41 the parentheses, 44 the comma,
  59 the semicolon, 61 the equals sign.
\<close>

definition method_pattern :: "pystr \<Rightarrow> regex" where
  "method_pattern keyword =
     seqs [Bol, Star (Cls Space),
           Opt (Alt (lit (38 # s_NaServere))
                 (Alt (lit (38 # s_NaKliente)) (lit (38 # s_NaServereBezKonteksta)))),
           Star (Cls Space),
           Opt (Seq (lit s_Eksport) (many1 (Cls Space))),
           lit keyword, many1 (Cls Space), Grp 1 (many1 (Cls Ident)), Star (Cls Space), Chr 40]"

definition PROC_PATTERN :: regex where
  "PROC_PATTERN = method_pattern s_Procedura"

definition FUNC_PATTERN :: regex where
  "FUNC_PATTERN = method_pattern s_Funkciya"

definition PROC_END_PATTERN :: regex where
  "PROC_END_PATTERN = seqs [Bol, Star (Cls Space), lit s_KonecProcedury]"

definition FUNC_END_PATTERN :: regex where
  "FUNC_END_PATTERN = seqs [Bol, Star (Cls Space), lit s_KonecFunkcii]"

definition CONTEXT_PATTERN :: regex where
  "CONTEXT_PATTERN =
     Seq (Chr 38) (Grp 1 (Alt (lit s_NaServere) (Alt (lit s_NaKliente) (lit s_NaServereBezKonteksta))))"

definition EXPORT_PATTERN :: regex where
  "EXPORT_PATTERN = seqs [WordB, lit s_Eksport, WordB]"

definition PARAM_PATTERN :: regex where
  "PARAM_PATTERN =
     seqs [Opt (Seq (lit s_Znach) (many1 (Cls Space))),
           Grp 1 (many1 (Cls Ident)),
           Opt (seqs [Star (Cls Space), Chr 61, Star (Cls Space), Grp 2 (many1 (Cls (NoneOf [44, 41])))])]"

definition MODULE_VAR_PATTERN :: regex where
  "MODULE_VAR_PATTERN =
     seqs [Bol, Star (Cls Space), lit s_Perem, many1 (Cls Space), Grp 1 (many1 (Cls Ident)),
           Opt (Seq (many1 (Cls Space)) (lit s_Eksport)), Star (Cls Space), Chr 59]"

definition CALL_PATTERN :: regex where
  "CALL_PATTERN = seqs [WordB, Grp 1 (many1 (Cls Ident)), Star (Cls Space), Chr 40]"

record bsl_parse_result =
  r_methods :: "bsl_method list"
  r_global_calls :: "bsl_call_position list"
  r_module_vars :: "(pystr \<times> bsl_module_var) list"

text \<open>Sequencing of steps that may raise, and a loop that collects results.\<close>

definition ebind :: "error + 'a \<Rightarrow> ('a \<Rightarrow> error + 'b) \<Rightarrow> error + 'b" where
  "ebind x f = (case x of Inl e \<Rightarrow> Inl e | Inr a \<Rightarrow> f a)"

fun emap :: "('a \<Rightarrow> error + 'b) \<Rightarrow> 'a list \<Rightarrow> error + 'b list" where
  "emap f [] = Inr []"
| "emap f (x # xs) = ebind (f x) (\<lambda>y. ebind (emap f xs) (\<lambda>ys. Inr (y # ys)))"

text \<open>
  A group whose text is used as a string: when the group took no part in the match the
  text is \<open>None\<close>, and using it raises (\<open>e\<close> says what). Where Python would only store the
  \<open>None\<close>, the model raises as well; the patterns set group 1 in every match.
\<close>

definition need_group :: "error \<Rightarrow> pystr \<Rightarrow> re_match \<Rightarrow> nat \<Rightarrow> error + pystr" where
  "need_group e s m n = (case match_group s m n of None \<Rightarrow> Inl e | Some t \<Rightarrow> Inr t)"

text \<open>
  \<open>_extract_description_before\<close>: the loop over the twenty lines before \<open>line_num\<close>,
  which stops at the first line that is neither empty nor a comment.
\<close>

fun description_loop :: "pystr list \<Rightarrow> nat list \<Rightarrow> pystr list \<Rightarrow> error + pystr list" where
  "description_loop lines [] description_lines = Inr description_lines"
| "description_loop lines (i # is) description_lines =
     ebind (nth_err lines i) (\<lambda>raw.
       let line = strip raw in
       if description_lines = [] \<and> line = [] then description_loop lines is description_lines
       else if startswith line (ascii ''//'')
         then description_loop lines is (description_lines @ [strip (drop 2 line)])
       else if contains (ascii ''/*'') line then
         (if contains (ascii ''*/'') line then
            (let comment = strip (slice line (the (str_find line (ascii ''/*'') 0) + 2)
                                   (the (str_find line (ascii ''*/'') 0)))
             in if comment \<noteq> [] then description_loop lines is (description_lines @ [comment])
                else description_loop lines is description_lines)
          else description_loop lines is description_lines)
       else if line \<noteq> [] then Inr description_lines
       else description_loop lines is description_lines)"

definition extract_description_before :: "pystr list \<Rightarrow> nat \<Rightarrow> error + pystr" where
  "extract_description_before lines line_num =
     ebind (description_loop lines [line_num - 20..<line_num] [])
       (\<lambda>description_lines. Inr (strip (join [10] (rev description_lines))))"

definition context_map :: "(pystr \<times> pystr) list" where
  "context_map =
     [(py_lower s_NaServere, s_NaServere), (py_lower s_NaKliente, s_NaKliente),
      (py_lower s_NaServereBezKonteksta, s_NaServereBezKonteksta)]"

definition extract_context :: "pystr \<Rightarrow> error + pystr" where
  "extract_context line =
     (case search CONTEXT_PATTERN line 0 of
        Some m \<Rightarrow> ebind (need_group AttributeError line m 1)
                   (\<lambda>g. Inr (dict_get context_map (py_lower g) []))
      | None \<Rightarrow> Inr [])"

text \<open>\<open>_extract_params\<close>: the parameters of the text between the parentheses.\<close>

definition param_of :: "pystr \<Rightarrow> re_match \<Rightarrow> error + bsl_param" where
  "param_of params_text param_match =
     ebind (need_group TypeError params_text param_match 1) (\<lambda>name.
       let whole = slice params_text (re_start param_match) (re_end param_match);
           byval = (contains s_Znach whole \<or> contains s_znach whole);
           default = (case match_group params_text param_match 2 of
                        Some d \<Rightarrow> if d \<noteq> [] then Some d else None
                      | None \<Rightarrow> None)
       in Inr \<lparr>param_name = name, param_byval = byval, param_default = map_option strip default\<rparr>)"

definition params_of :: "pystr \<Rightarrow> error + bsl_param list" where
  "params_of params_text =
     (if strip params_text \<noteq> []
      then emap (param_of params_text) (finditer PARAM_PATTERN params_text)
      else Inr [])"

definition extract_params :: "pystr \<Rightarrow> nat \<Rightarrow> pystr list \<Rightarrow> nat \<Rightarrow> error + bsl_param list" where
  "extract_params source start_pos lines start_line =
     (let declaration_line = (if start_line < length lines then lines ! start_line else []) in
      case str_find declaration_line [40] 0 of
        None \<Rightarrow> Inr []
      | Some paren_start \<Rightarrow>
          (case str_find declaration_line [41] (paren_start + 1) of
             None \<Rightarrow>
               (let search_start = start_pos + paren_start + 1 in
                case str_find source [41] search_start of
                  None \<Rightarrow> Inr []
                | Some paren_end_pos \<Rightarrow> params_of (slice source search_start paren_end_pos))
           | Some paren_end \<Rightarrow> params_of (slice declaration_line (paren_start + 1) paren_end)))"

text \<open>
  \<open>_find_method_end\<close>: the loop over the lines after the start line, with the nesting
  depth. The \<open>assert\<close> of the source is the branch that raises \<open>AssertionError\<close>.
\<close>

fun end_loop :: "pystr list \<Rightarrow> regex \<Rightarrow> nat list \<Rightarrow> int \<Rightarrow> error + nat option" where
  "end_loop lines end_pattern [] depth = Inr None"
| "end_loop lines end_pattern (i # is) depth =
     ebind (nth_err lines i) (\<lambda>line.
       let proc_match = search PROC_PATTERN line 0;
           func_match = search FUNC_PATTERN line 0
       in if proc_match \<noteq> None \<or> func_match \<noteq> None then
            (case (if proc_match \<noteq> None then proc_match else func_match) of
               None \<Rightarrow> Inl AssertionError
             | Some match_obj \<Rightarrow>
                 if re_start match_obj = length line - length (lstrip line)
                 then end_loop lines end_pattern is (depth + 1)
                 else end_loop lines end_pattern is depth)
          else if search end_pattern line 0 \<noteq> None then
            (if depth - 1 = 0 then Inr (Some i)
             else end_loop lines end_pattern is (depth - 1))
          else end_loop lines end_pattern is depth)"

definition find_method_end :: "pystr \<Rightarrow> nat \<Rightarrow> bool \<Rightarrow> error + nat option" where
  "find_method_end source start_line is_proc =
     (let lines = str_split 10 source;
          end_pattern = (if is_proc then PROC_END_PATTERN else FUNC_END_PATTERN)
      in end_loop lines end_pattern [start_line + 1..<length lines] 1)"

text \<open>
  The loop \<open>for offset in range(3)\<close> of \<open>_parse_method_from_match\<close>, which moves the
  start line to the line that holds the keyword and the name. The reads of \<open>lines\<close>
  stand behind the test \<open>check_line < len(lines)\<close>.
\<close>

fun verify_start_line :: "pystr list \<Rightarrow> pystr \<Rightarrow> nat \<Rightarrow> nat list \<Rightarrow> nat" where
  "verify_start_line lines method_name start_line [] = start_line"
| "verify_start_line lines method_name start_line (offset # rest) =
     (let check_line = start_line + offset in
      if check_line < length lines \<and> contains method_name (lines ! check_line) then
        (let line_text = lines ! check_line in
         if (contains s_Procedura line_text \<or> contains s_Funkciya line_text)
            \<and> contains method_name line_text
         then check_line
         else verify_start_line lines method_name start_line rest)
      else verify_start_line lines method_name start_line rest)"

definition parse_method_from_match ::
  "pystr \<Rightarrow> pystr list \<Rightarrow> re_match \<Rightarrow> bool \<Rightarrow> error + bsl_method option" where
  "parse_method_from_match source lines m is_proc =
     ebind (need_group TypeError source m 1) (\<lambda>method_name.
       let start_pos = re_start m;
           start_line = verify_start_line lines method_name
                          (count_list (take start_pos source) 10) [0, 1, 2];
           declaration_line = (if start_line < length lines then lines ! start_line else [])
       in ebind (extract_context declaration_line) (\<lambda>context.
            let is_export = (search EXPORT_PATTERN declaration_line 0 \<noteq> None) in
            ebind (extract_params source start_pos lines start_line) (\<lambda>params.
              ebind (find_method_end source start_line is_proc) (\<lambda>end_line.
                case end_line of
                  None \<Rightarrow> Inr None
                | Some endline \<Rightarrow>
                    ebind (extract_description_before lines start_line) (\<lambda>description.
                      Inr (Some \<lparr>m_name = method_name, m_line = start_line, m_endline = endline,
                                 m_isproc = is_proc, m_is_export = is_export, m_params = params,
                                 m_description = description, m_context = context,
                                 m_calls_position = []\<rparr>))))))"

text \<open>
  \<open>_parse_methods\<close>: the procedures, then the functions, then \<open>methods.sort\<close> by the
  start line (a stable sort, as \<open>sort_key\<close> is).
\<close>

definition parse_methods :: "pystr \<Rightarrow> pystr list \<Rightarrow> error + bsl_method list" where
  "parse_methods source lines =
     ebind (emap (\<lambda>m. parse_method_from_match source lines m True) (finditer PROC_PATTERN source))
       (\<lambda>procs.
     ebind (emap (\<lambda>m. parse_method_from_match source lines m False) (finditer FUNC_PATTERN source))
       (\<lambda>funcs.
     Inr (sort_key m_line (List.map_filter id (procs @ funcs)))))"

text \<open>\<open>_parse_module_vars\<close>: a later variable of the same name replaces the earlier one.\<close>

fun module_vars_loop ::
  "pystr \<Rightarrow> pystr list \<Rightarrow> re_match list \<Rightarrow> (pystr \<times> bsl_module_var) list
     \<Rightarrow> error + (pystr \<times> bsl_module_var) list" where
  "module_vars_loop source lines [] vars_dict = Inr vars_dict"
| "module_vars_loop source lines (m # ms) vars_dict =
     ebind (need_group TypeError source m 1) (\<lambda>var_name.
       let var_line = count_list (take (re_start m) source) 10;
           var_text = slice source (re_start m) (re_end m);
           is_export = (contains s_Eksport var_text \<or> contains s_eksport var_text)
       in ebind (extract_description_before lines var_line) (\<lambda>description.
            module_vars_loop source lines ms
              (AList.update var_name
                 \<lparr>mv_name = var_name, mv_is_export = is_export, mv_description = description\<rparr>
                 vars_dict)))"

definition parse_module_vars :: "pystr \<Rightarrow> pystr list \<Rightarrow> error + (pystr \<times> bsl_module_var) list" where
  "parse_module_vars source lines =
     module_vars_loop source lines (finditer MODULE_VAR_PATTERN source) []"

text \<open>
  The inner loops of \<open>_parse_global_calls\<close> and of \<open>_parse_method_calls\<close> over the matches
  of \<open>CALL_PATTERN\<close> in one line; \<open>None\<close> stands for \<open>continue\<close>.
\<close>

definition global_line_calls :: "nat \<Rightarrow> pystr \<Rightarrow> error + bsl_call_position list" where
  "global_line_calls line_num line =
     ebind (emap (\<lambda>m.
              ebind (need_group AttributeError line m 1) (\<lambda>call_name.
                if py_lower call_name \<in> set KEYWORDS then Inr None
                else Inr (Some \<lparr>cp_call = call_name, cp_line = line_num, cp_character = re_start m\<rparr>)))
            (finditer CALL_PATTERN line))
       (\<lambda>found. Inr (List.map_filter id found))"

definition method_line_calls :: "bsl_method \<Rightarrow> nat \<Rightarrow> pystr \<Rightarrow> error + bsl_call_position list" where
  "method_line_calls method line_num line =
     ebind (emap (\<lambda>m.
              ebind (need_group AttributeError line m 1) (\<lambda>call_name.
                if py_lower call_name \<in> set KEYWORDS then Inr None
                else if call_name = m_name method then Inr None
                else Inr (Some \<lparr>cp_call = call_name, cp_line = line_num, cp_character = re_start m\<rparr>)))
            (finditer CALL_PATTERN line))
       (\<lambda>found. Inr (List.map_filter id found))"

text \<open>\<open>line_num in method_ranges\<close>: the line lies in the range of some method.\<close>

definition in_method_ranges :: "bsl_method list \<Rightarrow> nat \<Rightarrow> bool" where
  "in_method_ranges ms line_num = list_ex (\<lambda>m. m_line m \<le> line_num \<and> line_num \<le> m_endline m) ms"

definition parse_global_calls :: "pystr list \<Rightarrow> bsl_method list \<Rightarrow> error + bsl_call_position list" where
  "parse_global_calls lines ms =
     ebind (emap (\<lambda>(line_num, line).
              if in_method_ranges ms line_num then Inr [] else global_line_calls line_num line)
            (enumerate 0 lines))
       (\<lambda>per_line. Inr (concat per_line))"

definition parse_method_calls :: "pystr list \<Rightarrow> bsl_method \<Rightarrow> error + bsl_call_position list" where
  "parse_method_calls lines method =
     (let method_lines = slice lines (m_line method) (m_endline method + 1) in
      ebind (emap (\<lambda>(line_offset, line). method_line_calls method (m_line method + line_offset) line)
             (enumerate 0 method_lines))
        (\<lambda>per_line. Inr (concat per_line)))"

definition parse :: "pystr \<Rightarrow> error + bsl_parse_result" where
  "parse source =
     (let lines = str_split 10 source in
      ebind (parse_module_vars source lines) (\<lambda>vars.
      ebind (parse_methods source lines) (\<lambda>ms.
      ebind (parse_global_calls lines ms) (\<lambda>global_calls.
      ebind (emap (\<lambda>method. ebind (parse_method_calls lines method)
                               (\<lambda>calls_position. Inr (method\<lparr>m_calls_position := calls_position\<rparr>))) ms)
        (\<lambda>ms'.
      Inr \<lparr>r_methods = ms', r_global_calls = global_calls, r_module_vars = vars\<rparr>)))))"

text \<open>
  A source of eight lines: a comment, a context directive, an exported procedure \<open>Foo\<close>
  with two parameters whose body calls \<open>Bar\<close>, itself and a keyword, a call of \<open>Baz\<close> at
  module level, and a function \<open>Qux\<close>.
\<close>

definition demo_source :: pystr where
  "demo_source =
     ascii ''// doc'' @ [10] @
     38 # s_NaServere @ [10] @
     s_Procedura @ ascii '' Foo(A, '' @ s_Znach @ ascii '' B = 1) '' @ s_Eksport @ [10] @
     ascii ''  Bar(1); Foo(2); '' @ s_Funkciya @ ascii ''(3);'' @ [10] @
     s_KonecProcedury @ [10] @
     ascii ''Baz ();'' @ [10] @
     s_Funkciya @ ascii '' Qux()'' @ [10] @
     s_KonecFunkcii"

text \<open>
  The call sites of one line as the specification describes them: every match of an
  identifier followed by an opening parenthesis whose lower-cased name is no keyword,
  with the line number and the column of the match. \<open>module_call_sites\<close> collects them
  over the lines outside the range of every method, \<open>method_call_sites\<close> over the lines
  of one method, leaving out the method's own name.
\<close>

definition call_sites :: "nat \<Rightarrow> pystr \<Rightarrow> bsl_call_position list" where
  "call_sites line_num line =
     List.map_filter (\<lambda>m.
        case match_group line m 1 of
          None \<Rightarrow> None
        | Some call_name \<Rightarrow>
            if py_lower call_name \<in> set KEYWORDS then None
            else Some \<lparr>cp_call = call_name, cp_line = line_num, cp_character = re_start m\<rparr>)
       (finditer CALL_PATTERN line)"

definition module_call_sites :: "pystr list \<Rightarrow> bsl_method list \<Rightarrow> bsl_call_position list" where
  "module_call_sites lines ms =
     concat (map (\<lambda>(line_num, line). call_sites line_num line)
               (filter (\<lambda>(line_num, line). \<not> in_method_ranges ms line_num) (enumerate 0 lines)))"

definition method_call_sites :: "pystr list \<Rightarrow> bsl_method \<Rightarrow> bsl_call_position list" where
  "method_call_sites lines method =
     filter (\<lambda>c. cp_call c \<noteq> m_name method)
       (concat (map (\<lambda>(line_offset, line). call_sites (m_line method + line_offset) line)
                  (enumerate 0 (slice lines (m_line method) (m_endline method + 1)))))"

(*DEFS*)

section \<open>Properties of the worker handle and the monitor loop\<close>

lemma not_alive_child_exits: "\<not> is_alive (child_exits rc s)"
  by (simp add: is_alive_def child_exits_def split: option.splits)

lemma child_exits_fields:
  "auto_restart (child_exits rc s) = auto_restart s"
  "restart_count (child_exits rc s) = restart_count s"
  by (simp_all add: child_exits_def split: option.splits)

lemma monitor_server_restart_ok:
  assumes "can_spawn w" "auto_restart s" "restart_count s = n" "n < 3" "\<not> is_alive s"
  shows "\<exists>w' s'. monitor_server w s = (None, w', s') \<and> sleeps w' = sleeps w @ [backoff n]
     \<and> auto_restart s' \<and> restart_count s' = Suc n \<and> can_spawn w' \<and> is_alive s'"
  using assms
  by (simp add: monitor_server_def restart_def max_retries_def start_def stop_def sleep_def Let_def
       reset_if_stable_def uptime_def is_alive_def STABLE_PERIOD_def reset_restart_count_def)

lemma monitor_server_exhausted:
  assumes "auto_restart s" "restart_count s \<ge> 3" "\<not> is_alive s"
  shows "monitor_server w s = (None, w, s\<lparr>auto_restart := False\<rparr>)"
  using assms
  by (simp add: monitor_server_def restart_def max_retries_def Let_def
       reset_if_stable_def uptime_def is_alive_def split: option.splits)

lemma monitor_server_disabled:
  assumes "\<not> auto_restart s" "\<not> is_alive s"
  shows "monitor_server w s = (None, w, s)"
  using assms
  by (simp add: monitor_server_def reset_if_stable_def uptime_def split: option.splits)

lemma crash_ticks_schedule:
  assumes "can_spawn w" "auto_restart s" "restart_count s = 0" "n \<le> 3"
  shows "\<exists>w' s'. crash_ticks n w s = (None, w', s') \<and> sleeps w' = sleeps w @ map backoff [0..<n]
     \<and> auto_restart s' \<and> restart_count s' = n \<and> can_spawn w' \<and> (0 < n \<longrightarrow> process s' \<noteq> None)"
  using assms(4)
proof (induction n)
  case 0
  then show ?case using assms by simp
next
  case (Suc n)
  then obtain w' s' where h: "crash_ticks n w s = (None, w', s')"
    "sleeps w' = sleeps w @ map backoff [0..<n]"
    "auto_restart s'" "restart_count s' = n" "can_spawn w'" by auto
  from monitor_server_restart_ok[of w' "child_exits 1 s'" n] h Suc.prems
  obtain w'' s'' where "monitor_server w' (child_exits 1 s') = (None, w'', s'')"
    "sleeps w'' = sleeps w' @ [backoff n]"
    "auto_restart s''" "restart_count s'' = Suc n" "can_spawn w''" "is_alive s''"
    by (auto simp: not_alive_child_exits child_exits_fields)
  with h show ?case by (auto simp: is_alive_def split: option.splits)
qed

lemma monitor_pass_keys: "map fst (snd (snd (monitor_pass w m))) = map fst m"
proof (induction m arbitrary: w)
  case Nil
  then show ?case by simp
next
  case (Cons a m)
  obtain k s where a: "a = (k, s)" by (cases a)
  obtain r w' s' where ms: "monitor_server w s = (r, w', s')" by (cases "monitor_server w s")
  show ?case
  proof (cases r)
    case None
    obtain r2 w2 m2 where mp: "monitor_pass w' m = (r2, w2, m2)" by (cases "monitor_pass w' m")
    from Cons.IH[of w'] mp have "map fst m2 = map fst m" by simp
    with a ms None mp show ?thesis by simp
  next
    case (Some e)
    with a ms show ?thesis by simp
  qed
qed

text \<open>
  Claim C6. A worker whose child dies before every monitor tick is restarted three times,
  after sleeping \<open>min (2 ^ n) 30\<close> seconds for the attempt with counter \<open>n\<close>, that is
  1, 2 and 4 seconds; at the fourth tick \<open>restart\<close> refuses (returns \<open>False\<close>, sleeping
  no more) and the monitor loop sets \<open>auto_restart\<close> to false.
\<close>

theorem restart_backoff_then_refused:
  assumes "can_spawn w" "auto_restart s" "restart_count s = 0"
  shows "\<exists>w3 s3 s4.
           crash_ticks 3 w s = (None, w3, s3)
         \<and> sleeps w3 = sleeps w @ [backoff 0, backoff 1, backoff 2]
         \<and> [backoff 0, backoff 1, backoff 2] = [1, 2, 4]
         \<and> auto_restart s3 \<and> restart_count s3 = max_retries
         \<and> restart w3 (child_exits 1 s3) = (Inr False, w3, child_exits 1 s3)
         \<and> crash_ticks 4 w s = (None, w3, s4)
         \<and> \<not> auto_restart s4"
proof -
  from crash_ticks_schedule[OF assms, of 3]
  obtain w3 s3 where h: "crash_ticks 3 w s = (None, w3, s3)"
    "sleeps w3 = sleeps w @ map backoff [0..<3]"
    "auto_restart s3" "restart_count s3 = 3" by auto
  have m: "monitor_server w3 (child_exits 1 s3)
             = (None, w3, (child_exits 1 s3)\<lparr>auto_restart := False\<rparr>)"
    using h by (intro monitor_server_exhausted) (simp_all add: child_exits_fields not_alive_child_exits)
  have c4: "crash_ticks 4 w s = monitor_server w3 (child_exits 1 s3)"
    using h(1) by (simp add: numeral_eq_Suc)
  have r: "restart w3 (child_exits 1 s3) = (Inr False, w3, child_exits 1 s3)"
    using h(4) by (simp add: restart_def max_retries_def child_exits_fields)
  have b: "[backoff 0, backoff 1, backoff 2] = [1, 2, 4]"
    by (simp add: backoff_def)
  have u: "map backoff [0..<3] = [backoff 0, backoff 1, backoff 2]"
    by (simp add: upt_rec numeral_eq_Suc)
  show ?thesis using h m c4 r b u by (simp add: max_retries_def)
qed

theorem restart_backoff_then_refused_witness:
  "can_spawn demo_world \<and> auto_restart demo_server \<and> restart_count demo_server = 0 \<and>
   (\<exists>w3 s3 s4.
           crash_ticks 3 demo_world demo_server = (None, w3, s3)
         \<and> sleeps w3 = [1, 2, 4]
         \<and> restart w3 (child_exits 1 s3) = (Inr False, w3, child_exits 1 s3)
         \<and> crash_ticks 4 demo_world demo_server = (None, w3, s4)
         \<and> \<not> auto_restart s4)"
proof -
  have h: "can_spawn demo_world" "auto_restart demo_server" "restart_count demo_server = 0"
    by (simp_all add: demo_world_def demo_server_def)
  have e: "sleeps demo_world = []" by (simp add: demo_world_def)
  from restart_backoff_then_refused[OF h] show ?thesis using h e by auto
qed

text \<open>
  Claim C1, as stated, fails: after the fourth tick of the crash scenario the counter is 3
  and \<open>auto_restart\<close> is off, but the status is \<open>crashed\<close>, not \<open>stopped\<close>, because
  \<open>restart\<close> returns before \<open>stop\<close> and the dead child's object is kept. Nor is the status
  a function of liveness and \<open>auto_restart\<close>: stopping that worker changes neither and
  changes the status.
\<close>

theorem exhausted_worker_status_counterexample:
  "\<exists>w s. crash_ticks 4 demo_world demo_server = (None, w, s)
      \<and> restart_count s = 3 \<and> \<not> auto_restart s \<and> status s = ''crashed'' \<and> status s \<noteq> ''stopped''
      \<and> \<not> is_alive s \<and> \<not> is_alive (stop s) \<and> auto_restart s = auto_restart (stop s)
      \<and> status (stop s) \<noteq> status s"
  by (simp add: numeral_eq_Suc demo_world_def demo_server_def monitor_server_def child_exits_def
        restart_def max_retries_def start_def stop_def sleep_def backoff_def is_alive_def
        reset_if_stable_def uptime_def STABLE_PERIOD_def reset_restart_count_def status_def Let_def)

text \<open>
  Claim C1, amended. A worker whose restarts are used up (the counter has reached
  \<open>max_retries\<close>, the dead child's object is still held, \<open>auto_restart\<close> is on) comes out
  of the monitor loop with \<open>auto_restart\<close> off and status \<open>crashed\<close>, and later passes
  leave it so; a pass of the loop removes no registration. The status is a function of
  whether the child is live and whether a process object is held, and takes values in
  \<open>running\<close>, \<open>crashed\<close>, \<open>stopped\<close> only.
\<close>

theorem exhausted_worker_stays_crashed:
  assumes "process s = Some p" "returncode p = Some rc" "auto_restart s"
    "max_retries \<le> restart_count s"
  shows "\<exists>s'. monitor_server w s = (None, w, s') \<and> s' = s\<lparr>auto_restart := False\<rparr>
           \<and> status s' = ''crashed''
           \<and> monitor_server w s' = (None, w, s')
           \<and> map fst (snd (snd (monitor_pass w m))) = map fst m
           \<and> status t = (if is_alive t then ''running''
                          else if process t \<noteq> None then ''crashed'' else ''stopped'')
           \<and> status t \<in> {''running'', ''crashed'', ''stopped''}"
proof -
  have dead: "\<not> is_alive s" using assms(1,2) by (simp add: is_alive_def)
  have m1: "monitor_server w s = (None, w, s\<lparr>auto_restart := False\<rparr>)"
    using assms(3,4) dead by (intro monitor_server_exhausted) (simp_all add: max_retries_def)
  have dead': "\<not> is_alive (s\<lparr>auto_restart := False\<rparr>)" using dead by (simp add: is_alive_def)
  have m2: "monitor_server w (s\<lparr>auto_restart := False\<rparr>) = (None, w, s\<lparr>auto_restart := False\<rparr>)"
    using dead' by (intro monitor_server_disabled) simp_all
  have st: "status (s\<lparr>auto_restart := False\<rparr>) = ''crashed''"
    using dead' assms(1) by (simp add: status_def)
  have f: "status t = (if is_alive t then ''running''
                          else if process t \<noteq> None then ''crashed'' else ''stopped'')"
    by (simp add: status_def)
  have r: "status t \<in> {''running'', ''crashed'', ''stopped''}"
    by (simp add: status_def)
  show ?thesis using m1 m2 st f r monitor_pass_keys[of w m] by simp
qed

theorem exhausted_worker_stays_crashed_witness:
  "process exhausted_server = Some \<lparr>pid = 102, returncode = Some 1\<rparr>
   \<and> auto_restart exhausted_server \<and> max_retries \<le> restart_count exhausted_server
   \<and> monitor_server demo_world exhausted_server
       = (None, demo_world, exhausted_server\<lparr>auto_restart := False\<rparr>)
   \<and> status (exhausted_server\<lparr>auto_restart := False\<rparr>) = ''crashed''"
proof -
  have h: "process exhausted_server = Some \<lparr>pid = 102, returncode = Some 1\<rparr>"
    "returncode \<lparr>pid = 102, returncode = Some 1\<rparr> = Some 1"
    "auto_restart exhausted_server" "max_retries \<le> restart_count exhausted_server"
    by (simp_all add: exhausted_server_def demo_server_def max_retries_def)
  from exhausted_worker_stays_crashed[OF h, of demo_world "[]" exhausted_server] h
  show ?thesis by auto
qed

section \<open>Properties of the supervisor\<close>

lemma dedupe_name_fresh: "dedupe_name E base k name \<notin> set E"
  by (induction E base k name rule: dedupe_name.induct) (simp add: dedupe_name.simps)

lemma dedupe_name_skips:
  assumes "\<forall>c. i \<le> c \<and> c \<le> j \<longrightarrow> expected_name base c \<in> set E"
    and "expected_name base (Suc j) \<notin> set E" and "1 \<le> i" and "i \<le> Suc j"
  shows "dedupe_name E base i (expected_name base i) = expected_name base (Suc j)"
  using assms
proof (induction "Suc j - i" arbitrary: i)
  case 0
  then have "i = Suc j" by simp
  with 0 show ?case by (simp add: dedupe_name.simps)
next
  case (Suc d)
  then have le: "i \<le> j" by simp
  with Suc.prems have mem: "expected_name base i \<in> set E" by simp
  have nxt: "base @ ascii ''_'' @ str_nat (i + 1) = expected_name base (Suc i)"
    using Suc.prems(3) by (simp add: expected_name_def)
  have "dedupe_name E base (Suc i) (expected_name base (Suc i)) = expected_name base (Suc j)"
    using Suc.hyps Suc.prems le by (intro Suc.hyps(1)) auto
  with mem nxt show ?case
    by (subst dedupe_name.simps) simp
qed

lemma expected_name_inj: "expected_name base a = expected_name base b \<Longrightarrow> 1 \<le> a \<Longrightarrow> 1 \<le> b \<Longrightarrow> a = b"
  by (auto simp: expected_name_def str_nat_inj ascii_def split: if_splits)

lemma str_nat_1: "str_nat c = ascii ''1'' \<longleftrightarrow> c = 1"
proof
  assume "str_nat c = ascii ''1''"
  moreover have "str_nat 1 = ascii ''1''" by (simp add: str_nat.simps ascii_def)
  ultimately show "c = 1" using str_nat_inj by metis
next
  assume "c = 1" then show "str_nat c = ascii ''1''" by (simp add: str_nat.simps ascii_def)
qed

lemma expected_name_not_1: "expected_name base c \<noteq> base @ ascii ''_1''"
proof (cases "c = 1")
  case True
  have "ascii ''_1'' \<noteq> []" by (simp add: ascii_def)
  with True show ?thesis by (simp add: expected_name_def)
next
  case False
  have "ascii ''_1'' = ascii ''_'' @ ascii ''1''" by (simp add: ascii_def)
  with False show ?thesis by (simp add: expected_name_def str_nat_1)
qed

lemma try_ports_mem: "try_ports w h ps = Inr p \<Longrightarrow> p \<in> set ps"
  by (induction ps) (auto split: if_splits)

lemma find_free_port_range:
  assumes "find_free_port w m h = Inr p"
  shows "(\<forall>q \<in> set (used_ports m). q < p)
       \<and> (used_ports m = [] \<longrightarrow> 9200 \<le> p \<and> p \<le> 9299)
       \<and> (used_ports m \<noteq> [] \<longrightarrow> p \<le> Max (set (used_ports m)) + 100)"
proof -
  let ?s = "if used_ports m \<noteq> [] then Max (set (used_ports m)) + 1 else 9200"
  from assms have "p \<in> set [?s..?s + 99]"
    unfolding find_free_port_def Let_def by (rule try_ports_mem)
  then have b: "?s \<le> p" "p \<le> ?s + 99" by simp_all
  have "\<forall>q \<in> set (used_ports m). q < p"
  proof
    fix q assume q: "q \<in> set (used_ports m)"
    then have "q \<le> Max (set (used_ports m))" by simp
    moreover from q have "used_ports m \<noteq> []" by auto
    ultimately show "q < p" using b(1) by simp
  qed
  with b show ?thesis by (auto split: if_splits)
qed

lemma start_fields:
  "start w s = (r, w', s') \<Longrightarrow> project_name s' = project_name s \<and> port s' = port s"
  by (auto simp: start_def split: if_splits)

lemma put_server_append:
  "name \<notin> set (map fst m) \<Longrightarrow> put_server name s (m @ [(name, v)]) = m @ [(name, s)]"
  by (induction m) auto

lemma map_of_append_fresh:
  "name \<notin> set (map fst m) \<Longrightarrow> map_of (m @ [(name, v)]) name = Some v"
  by (induction m) auto

lemma add_and_start_server_cases:
  assumes "add_and_start_server w m path tr_opt hst_opt ctx mds lvl = (r, w', m')"
  shows "m' = m \<and> (\<exists>e. r = Inl e)
       \<or> (\<exists>p h s'. find_free_port w m h = Inr p
            \<and> m' = m @ [(dedupe_name (map fst m) (basename (rstrip_seps path)) 1 (basename (rstrip_seps path)), s')]
            \<and> port s' = p
            \<and> project_name s' = dedupe_name (map fst m) (basename (rstrip_seps path)) 1 (basename (rstrip_seps path))
            \<and> (r = Inr s' \<or> (\<exists>e. r = Inl e)))"
proof -
  let ?b = "basename (rstrip_seps path)"
  let ?n = "dedupe_name (map fst m) ?b 1 ?b"
  have fresh: "?n \<notin> set (map fst m)" by (rule dedupe_name_fresh)
  show ?thesis
  proof (cases "?b = []")
    case True
    with assms show ?thesis by (auto simp: add_and_start_server_def)
  next
    case False
    define tr where "tr = (case tr_opt of Some t \<Rightarrow> t
                  | None \<Rightarrow> (case m of [] \<Rightarrow> ascii ''sse'' | (k, first) # _ \<Rightarrow> transport first))"
    define hst where "hst = (case hst_opt of Some h \<Rightarrow> h
                  | None \<Rightarrow> (case m of [] \<Rightarrow> ascii ''0.0.0.0'' | (k, first) # _ \<Rightarrow> host first))"
    show ?thesis
    proof (cases "find_free_port w m hst")
      case (Inl e)
      with assms False show ?thesis
        by (auto simp: add_and_start_server_def Let_def hst_def)
    next
      case (Inr p)
      define rec0 where "rec0 = \<lparr>project_name = ?n, project_path = path, port = p, transport = tr, host = hst,
         context_opt = ctx, modes = mds, log_level = lvl, auto_restart = True, process = None,
         start_time = None, restart_count = 0\<rparr>"
      have as: "add_server m ?n path p tr hst ctx mds lvl = Inr (m @ [(?n, rec0)])"
        using fresh by (simp add: add_server_def rec0_def)
      obtain r1 w1 s1 where st: "start w (rec0\<lparr>auto_restart := True\<rparr>) = (r1, w1, s1)"
        by (cases "start w (rec0\<lparr>auto_restart := True\<rparr>)")
      from start_fields[OF st] have f: "project_name s1 = ?n" "port s1 = p"
        by (simp_all add: rec0_def)
      have ss: "start_server w (m @ [(?n, rec0)]) ?n = (r1, w1, m @ [(?n, s1)])"
        using fresh st by (simp add: start_server_def map_of_append_fresh put_server_append del: map_of_append)
      have res: "add_and_start_server w m path tr_opt hst_opt ctx mds lvl =
         (case r1 of Some e \<Rightarrow> (Inl e, w1, m @ [(?n, s1)]) | None \<Rightarrow> (Inr s1, w1, m @ [(?n, s1)]))"
        using False Inr as ss fresh
        by (simp add: add_and_start_server_def Let_def hst_def[symmetric] tr_def[symmetric]
              map_of_append_fresh del: map_of_append split: option.splits)
      with assms have "m' = m @ [(?n, s1)]" "r = Inr s1 \<or> (\<exists>e. r = Inl e)"
        by (auto split: option.splits)
      with Inr f show ?thesis by blast
    qed
  qed
qed

lemma add_and_start_server_ok:
  assumes "add_and_start_server w m path tr_opt hst_opt ctx mds lvl = (Inr s, w', m')"
  shows "m' = m @ [(project_name s, s)]
       \<and> project_name s = dedupe_name (map fst m) (basename (rstrip_seps path)) 1 (basename (rstrip_seps path))
       \<and> basename (rstrip_seps path) \<noteq> []"
proof -
  have ne: "basename (rstrip_seps path) \<noteq> []"
    using assms by (auto simp: add_and_start_server_def Let_def)
  from add_and_start_server_cases[OF assms] ne show ?thesis by auto
qed

lemma add_and_start_all_names:
  assumes "add_and_start_all w m rqs = (Inr ss, w', m')"
    and "\<forall>rq \<in> set rqs. basename (rstrip_seps (rq_path rq)) = base"
    and "\<forall>c. 1 \<le> c \<and> c \<le> j \<longrightarrow> expected_name base c \<in> set (map fst m)"
    and "\<forall>c. j < c \<longrightarrow> expected_name base c \<notin> set (map fst m)"
  shows "map project_name ss = map (expected_name base) [Suc j..<Suc j + length rqs]"
  using assms
proof (induction rqs arbitrary: w m ss j)
  case Nil
  then show ?case by simp
next
  case (Cons rq rqs)
  obtain r1 w1 m1 where c1: "add_and_start_server w m (rq_path rq) (rq_transport rq) (rq_host rq)
      (rq_context rq) (rq_modes rq) (rq_log_level rq) = (r1, w1, m1)"
    by (metis prod_cases3)
  from Cons.prems(1) c1 obtain s where r1: "r1 = Inr s"
    by (cases r1) auto
  obtain r2 w2 m2 where c2: "add_and_start_all w1 m1 rqs = (r2, w2, m2)"
    by (metis prod_cases3)
  from Cons.prems(1) c1 r1 c2 obtain ss' where r2: "r2 = Inr ss'" and ss: "ss = s # ss'"
    and fin: "w2 = w'" "m2 = m'"
    by (cases r2) auto
  have b: "basename (rstrip_seps (rq_path rq)) = base" using Cons.prems(2) by simp
  from add_and_start_server_ok[OF c1[unfolded r1]] b
  have m1: "m1 = m @ [(project_name s, s)]"
    and nm: "project_name s = dedupe_name (map fst m) base 1 base" by simp_all
  have "dedupe_name (map fst m) base 1 (expected_name base 1) = expected_name base (Suc j)"
    using Cons.prems(3,4) by (intro dedupe_name_skips) auto
  then have nm': "project_name s = expected_name base (Suc j)"
    using nm by (simp add: expected_name_def)
  have inv1: "\<forall>c. 1 \<le> c \<and> c \<le> Suc j \<longrightarrow> expected_name base c \<in> set (map fst m1)"
    using Cons.prems(3) m1 nm' by (auto simp: le_Suc_eq)
  have inv2: "\<forall>c. Suc j < c \<longrightarrow> expected_name base c \<notin> set (map fst m1)"
  proof (intro allI impI)
    fix c assume c: "Suc j < c"
    then have "expected_name base c \<noteq> expected_name base (Suc j)"
      using expected_name_inj[of base c "Suc j"] by auto
    moreover have "expected_name base c \<notin> set (map fst m)" using Cons.prems(4) c by simp
    ultimately show "expected_name base c \<notin> set (map fst m1)" using m1 nm' by auto
  qed
  have "map project_name ss' = map (expected_name base) [Suc (Suc j)..<Suc (Suc j) + length rqs]"
    using c2 r2 fin Cons.prems(2) inv1 inv2 by (intro Cons.IH[of w1 m1 ss' "Suc j"]) auto
  moreover have "[Suc j..<Suc j + length (rq # rqs)] = Suc j # [Suc (Suc j)..<Suc (Suc j) + length rqs]"
    by (simp add: upt_conv_Cons del: upt_Suc)
  ultimately show ?case using ss nm' by (simp del: upt_Suc)
qed

text \<open>
  Claim C5. When \<open>add_and_start_server\<close> is called for \<open>K\<close> paths whose basenames all equal
  \<open>base\<close>, no registered name is one of \<open>base\<close>, \<open>base_2\<close>, \<open>base_3\<close>, ..., and every
  call returns, the names of the returned records are \<open>base\<close>, \<open>base_2\<close>, ..., \<open>base_K\<close>
  in this order, and \<open>base_1\<close> is not among them.
\<close>

theorem same_basename_names:
  assumes "add_and_start_all w m rqs = (Inr ss, w', m')"
    and "\<forall>rq \<in> set rqs. basename (rstrip_seps (rq_path rq)) = base"
    and "\<forall>c. 1 \<le> c \<longrightarrow> expected_name base c \<notin> set (map fst m)"
  shows "map project_name ss = map (expected_name base) [1..<Suc (length rqs)]
       \<and> length ss = length rqs
       \<and> base @ ascii ''_1'' \<notin> set (map project_name ss)"
proof -
  have n: "map project_name ss = map (expected_name base) [Suc 0..<Suc 0 + length rqs]"
    using assms by (intro add_and_start_all_names[of w m rqs ss w' m' base 0]) auto
  have l: "length ss = length rqs"
    using arg_cong[OF n, of length] by (simp del: upt_Suc)
  have "\<And>c. base @ ascii ''_1'' \<noteq> expected_name base c"
    using expected_name_not_1[of base] by metis
  then have "base @ ascii ''_1'' \<notin> set (map (expected_name base) [Suc 0..<Suc 0 + length rqs])"
    by (auto simp del: upt_Suc)
  with n l show ?thesis by simp
qed

lemma same_base_requests_run:
  "\<not> isl (fst (add_and_start_all demo_world [] same_base_requests))"
  by code_simp

theorem same_basename_names_witness:
  "\<exists>ss w' m'. add_and_start_all demo_world [] same_base_requests = (Inr ss, w', m')
     \<and> map (\<lambda>rq. basename (rstrip_seps (rq_path rq))) same_base_requests
         = [ascii ''proj'', ascii ''proj'', ascii ''proj'']
     \<and> map project_name ss = [ascii ''proj'', ascii ''proj_2'', ascii ''proj_3'']"
proof -
  obtain r w' m' where e: "add_and_start_all demo_world [] same_base_requests = (r, w', m')"
    by (metis prod_cases3)
  with same_base_requests_run obtain ss where r: "r = Inr ss" by (cases r) auto
  have b: "map (\<lambda>rq. basename (rstrip_seps (rq_path rq))) same_base_requests
         = [ascii ''proj'', ascii ''proj'', ascii ''proj'']"
    by (simp add: same_base_requests_def basename_def rstrip_seps_def ascii_def)
  then have h: "\<forall>rq \<in> set same_base_requests. basename (rstrip_seps (rq_path rq)) = ascii ''proj''"
    by (simp add: same_base_requests_def)
  have l: "length same_base_requests = 3" by (simp add: same_base_requests_def)
  have x: "map (expected_name (ascii ''proj'')) [1..<Suc 3] = [ascii ''proj'', ascii ''proj_2'', ascii ''proj_3'']"
    by (simp add: expected_name_def upt_rec str_nat.simps ascii_def)
  from same_basename_names[OF e[unfolded r] h] l x
  have "map project_name ss = [ascii ''proj'', ascii ''proj_2'', ascii ''proj_3'']" by simp
  with e r b show ?thesis by auto
qed

lemma ports_ok_step:
  assumes "ports_ok m" "add_and_start_server w m path tr_opt hst_opt ctx mds lvl = (r, w', m')"
  shows "ports_ok m' \<and> length m' \<le> Suc (length m)"
proof -
  from add_and_start_server_cases[OF assms(2)]
  consider "m' = m" | p h s' n where "find_free_port w m h = Inr p" "m' = m @ [(n, s')]" "port s' = p"
    by blast
  then show ?thesis
  proof cases
    case 1
    with assms show ?thesis by simp
  next
    case 2
    from find_free_port_range[OF 2(1)]
    have lt: "\<forall>q \<in> set (used_ports m). q < p"
      and e: "used_ports m = [] \<longrightarrow> 9200 \<le> p \<and> p \<le> 9299"
      and ne: "used_ports m \<noteq> [] \<longrightarrow> p \<le> Max (set (used_ports m)) + 100" by simp_all
    have up: "used_ports m' = used_ports m @ [p]" using 2 by (simp add: used_ports_def)
    have d: "distinct (used_ports m')" using assms(1) lt up by (auto simp: ports_ok_def)
    have old: "\<forall>q \<in> set (used_ports m). 9200 \<le> q \<and> q < 9200 + 100 * int (length m)"
      using assms(1) by (simp add: ports_ok_def list_all_iff)
    have pr: "9200 \<le> p \<and> p < 9200 + 100 * int (length m')"
    proof (cases "used_ports m = []")
      case True
      with e 2 show ?thesis by simp
    next
      case False
      define M where "M = Max (set (used_ports m))"
      from False have mx: "M \<in> set (used_ports m)" unfolding M_def by (intro Max_in) simp_all
      with old have "9200 \<le> M" "M < 9200 + 100 * int (length m)"
        by auto
      moreover from lt mx have "M < p" by blast
      moreover from ne False have "p \<le> M + 100" by (simp add: M_def)
      moreover have "int (length m') = int (length m) + 1" using 2 by simp
      ultimately show ?thesis by linarith
    qed
    have "\<forall>q \<in> set (used_ports m'). 9200 \<le> q \<and> q < 9200 + 100 * int (length m')"
      using old pr up 2(2) by auto
    with d 2 show ?thesis by (simp add: ports_ok_def list_all_iff)
  qed
qed

lemma ports_ok_all:
  assumes "ports_ok m" "add_and_start_all w m rqs = (r, w', m')"
  shows "ports_ok m' \<and> length m' \<le> length m + length rqs"
  using assms
proof (induction rqs arbitrary: w m r)
  case Nil
  then show ?case by simp
next
  case (Cons rq rqs)
  obtain r1 w1 m1 where c1: "add_and_start_server w m (rq_path rq) (rq_transport rq) (rq_host rq)
      (rq_context rq) (rq_modes rq) (rq_log_level rq) = (r1, w1, m1)"
    by (metis prod_cases3)
  from ports_ok_step[OF Cons.prems(1) c1] have ok1: "ports_ok m1" "length m1 \<le> Suc (length m)" by simp_all
  show ?case
  proof (cases r1)
    case (Inl e)
    with Cons.prems(2) c1 have "m' = m1" by simp
    with ok1 show ?thesis by simp
  next
    case (Inr s)
    obtain r2 w2 m2 where c2: "add_and_start_all w1 m1 rqs = (r2, w2, m2)"
      by (metis prod_cases3)
    with Cons.prems(2) c1 Inr have "m' = m2" "w' = w2" by (auto split: sum.splits)
    with Cons.IH[OF ok1(1), of w1 r2] c2 ok1(2) show ?thesis by simp
  qed
qed

text \<open>
  Claim C2, as stated, fails: \<open>add_server\<close> checks the name only, so two calls with
  different names and the same port both succeed, and the port may lie outside any range.
\<close>

theorem add_server_ports_counterexample:
  "\<exists>m1 m2. add_server [] (ascii ''a'') (ascii ''/srv/a'') 80 (ascii ''sse'') (ascii ''0.0.0.0'') None [] None = Inr m1
        \<and> add_server m1 (ascii ''b'') (ascii ''/srv/b'') 80 (ascii ''sse'') (ascii ''0.0.0.0'') None [] None = Inr m2
        \<and> used_ports m2 = [80, 80]
        \<and> \<not> distinct (used_ports m2)
        \<and> \<not> set (used_ports m2) \<subseteq> {9200..<9200 + 2 + 5}"
  by (simp add: add_server_def used_ports_def ascii_def)

text \<open>
  Claim C2, amended. For every sequence of \<open>add_and_start_server\<close> calls on a supervisor
  with no worker (every port chosen by \<open>find_free_port\<close>), whether or not a call raises,
  the registered ports contain no duplicates and, with \<open>N\<close> workers registered, lie in
  \<open>[9200, 9200 + 100 * N)\<close>; at most one worker is registered per call.
\<close>

theorem assigned_ports_distinct:
  assumes "add_and_start_all w [] rqs = (r, w', m')"
  shows "distinct (used_ports m')
       \<and> list_all (\<lambda>p. 9200 \<le> p \<and> p < 9200 + 100 * int (length m')) (used_ports m')
       \<and> length m' \<le> length rqs"
proof -
  have "ports_ok []" by (simp add: ports_ok_def used_ports_def)
  from ports_ok_all[OF this assms] show ?thesis by (simp add: ports_ok_def)
qed

theorem assigned_ports_distinct_witness:
  "\<exists>r w' m'. add_and_start_all demo_world [] same_base_requests = (r, w', m')
     \<and> used_ports m' = [9200, 9201, 9202] \<and> distinct (used_ports m')"
proof -
  obtain r w' m' where e: "add_and_start_all demo_world [] same_base_requests = (r, w', m')"
    by (metis prod_cases3)
  have "used_ports (snd (snd (add_and_start_all demo_world [] same_base_requests))) = [9200, 9201, 9202]"
    by code_simp
  with e have u: "used_ports m' = [9200, 9201, 9202]" by simp
  from assigned_ports_distinct[OF e] u e show ?thesis by blast
qed

section \<open>Properties of the content fingerprint\<close>

lemma replace_crlf_no_cr: "13 \<notin> set xs \<Longrightarrow> replace_crlf xs = xs"
  by (induction xs rule: replace_crlf.induct) auto

lemma replace_cr_no_cr: "13 \<notin> set (replace_cr xs)"
  by (auto simp: replace_cr_def)

lemma replace_cr_id: "13 \<notin> set xs \<Longrightarrow> replace_cr xs = xs"
  by (induction xs) (auto simp: replace_cr_def)

lemma normalize_newlines_idem: "normalize_newlines (normalize_newlines x) = normalize_newlines x"
  by (simp add: normalize_newlines_def replace_crlf_no_cr replace_cr_no_cr replace_cr_id)

lemma replace_crlf_lone: "replace_crlf (lone_cr_to_lf xs) = replace_cr (replace_crlf xs)"
proof (induction xs rule: replace_crlf.induct)
  case 1
  then show ?case by (simp add: replace_cr_def)
next
  case (2 x)
  then show ?case by (simp add: replace_cr_def)
next
  case (3 x y xs)
  show ?case
  proof (cases "x = 13 \<and> y = 10")
    case True
    with 3 show ?thesis by (simp add: replace_cr_def)
  next
    case False
    with 3 have IH: "replace_crlf (lone_cr_to_lf (y # xs)) = replace_cr (replace_crlf (y # xs))" by simp
    have "lone_cr_to_lf (y # xs) \<noteq> []" by (cases xs) auto
    then obtain z zs where l: "lone_cr_to_lf (y # xs) = z # zs" by (auto simp: neq_Nil_conv)
    have "replace_crlf ((if x = 13 then 10 else x) # z # zs) = (if x = 13 then 10 else x) # replace_crlf (z # zs)"
      by simp
    with False l IH show ?thesis by (simp add: replace_cr_def)
  qed
qed

lemma normalize_lone: "normalize_newlines (lone_cr_to_lf xs) = normalize_newlines xs"
  by (simp add: normalize_newlines_def replace_crlf_lone replace_cr_no_cr replace_cr_id)

lemma replace_crlf_head:
  "replace_crlf (y # xs) = (if y = 13 \<and> xs \<noteq> [] \<and> hd xs = 10 then 10 else y) # tl (replace_crlf (y # xs))"
  by (cases xs) auto

lemma has_cr_crlf_Cons: "has_cr_crlf xs \<Longrightarrow> has_cr_crlf (a # xs)"
  by (cases xs rule: has_cr_crlf.cases) auto

lemma replace_crlf_twice: "\<not> has_cr_crlf xs \<Longrightarrow> replace_crlf (replace_crlf xs) = replace_crlf xs"
proof (induction xs rule: replace_crlf.induct)
  case 1
  then show ?case by simp
next
  case (2 x)
  then show ?case by simp
next
  case (3 x y xs)
  show ?case
  proof (cases "x = 13 \<and> y = 10")
    case True
    from 3(3) have n: "\<not> has_cr_crlf xs" using has_cr_crlf_Cons has_cr_crlf_Cons by blast
    with 3 True have IH: "replace_crlf (replace_crlf xs) = replace_crlf xs" by simp
    have "replace_crlf (10 # replace_crlf xs) = 10 # replace_crlf (replace_crlf xs)"
      by (cases "replace_crlf xs") auto
    with True IH show ?thesis by simp
  next
    case False
    from 3(3) have n: "\<not> has_cr_crlf (y # xs)" using has_cr_crlf_Cons by blast
    with 3 False have IH: "replace_crlf (replace_crlf (y # xs)) = replace_crlf (y # xs)" by simp
    have "replace_crlf (y # xs) \<noteq> []" by (cases xs) auto
    then obtain z zs where l: "replace_crlf (y # xs) = z # zs" by (auto simp: neq_Nil_conv)
    have "\<not> (x = 13 \<and> z = 10)"
    proof
      assume a: "x = 13 \<and> z = 10"
      with False have "y \<noteq> 10" by simp
      with l a have "y = 13 \<and> xs \<noteq> [] \<and> hd xs = 10"
        using replace_crlf_head[of y xs] by (auto split: if_splits)
      with a 3(3) show False by (cases xs) auto
    qed
    then have "replace_crlf (x # z # zs) = x # replace_crlf (z # zs)" by auto
    with IH l have e2: "replace_crlf (x # z # zs) = x # z # zs" by simp
    have e1: "replace_crlf (x # y # xs) = x # z # zs" using False l by auto
    show ?thesis by (simp only: e1 e2)
  qed
qed

text \<open>
  Claim C4, as stated, fails for a text in which a CR stands directly before a CR+LF pair:
  replacing the pair leaves a new CR+LF behind. For CR CR LF the normalised content is
  LF LF, the normalised content of the text with CR+LF replaced is LF, and the two are
  hashed to different digests (shown here with the identity as digest; MD5 gives
  68b329da... for LF and e1c06d85... for LF LF).
\<close>

theorem newline_fingerprint_counterexample:
  "replace_crlf [13, 13, 10] = [13, 10]
   \<and> normalize_newlines (replace_crlf [13, 13, 10]) = [10]
   \<and> normalize_newlines [13, 13, 10] = [10, 10]
   \<and> normalize_newlines (lone_cr_to_lf [13, 13, 10]) = [10, 10]
   \<and> compute_file_hash (\<lambda>x. x) (Some (replace_crlf [13, 13, 10]))
        \<noteq> compute_file_hash (\<lambda>x. x) (Some (lone_cr_to_lf [13, 13, 10]))
   \<and> compute_file_hash (\<lambda>x. x) (Some (replace_crlf [13, 13, 10]))
        \<noteq> compute_file_hash (\<lambda>x. x) (Some [13, 13, 10])"
  by (simp add: normalize_newlines_def replace_cr_def compute_file_hash_def)

text \<open>
  Claim C4, amended. For every text \<open>x\<close> and every digest function: normalisation is
  idempotent, so the fingerprint of the normalised text is the fingerprint of \<open>x\<close> and
  \<open>hash(norm(x)) = hash(norm(norm(x)))\<close>; the fingerprint of \<open>x\<close> with every lone CR
  replaced by LF is the fingerprint of \<open>x\<close>; and the fingerprint of \<open>x\<close> with every
  CR+LF replaced by LF is the fingerprint of \<open>x\<close> provided that no CR stands directly
  before a CR+LF pair in \<open>x\<close>.
\<close>

theorem newline_fingerprint_stable:
  assumes "\<not> has_cr_crlf x"
  shows "compute_file_hash digest (Some (normalize_newlines y)) = compute_file_hash digest (Some y)
   \<and> digest (normalize_newlines y) = digest (normalize_newlines (normalize_newlines y))
   \<and> compute_file_hash digest (Some (lone_cr_to_lf y)) = compute_file_hash digest (Some y)
   \<and> compute_file_hash digest (Some (replace_crlf x)) = compute_file_hash digest (Some x)"
proof -
  have "normalize_newlines (replace_crlf x) = normalize_newlines x"
    using assms by (simp add: normalize_newlines_def replace_crlf_twice)
  then show ?thesis
    by (simp add: compute_file_hash_def normalize_newlines_idem normalize_lone)
qed

theorem newline_fingerprint_stable_witness:
  "\<not> has_cr_crlf [97, 13, 10, 98, 13, 99]
   \<and> compute_file_hash (\<lambda>x. x) (Some (replace_crlf [97, 13, 10, 98, 13, 99])) = [97, 10, 98, 10, 99]
   \<and> compute_file_hash (\<lambda>x. x) (Some [97, 13, 10, 98, 13, 99]) = [97, 10, 98, 10, 99]
   \<and> compute_file_hash (\<lambda>x. x) (Some (lone_cr_to_lf [13, 13, 10])) = [10, 10]
   \<and> compute_file_hash (\<lambda>x. x) (Some [13, 13, 10]) = [10, 10]"
proof -
  have h: "\<not> has_cr_crlf [97, 13, 10, 98, 13, 99]" by simp
  have e: "compute_file_hash (\<lambda>x. x) (Some [97, 13, 10, 98, 13, 99]) = [97, 10, 98, 10, 99]"
    "compute_file_hash (\<lambda>x. x) (Some [13, 13, 10]) = [10, 10]"
    by (simp_all add: compute_file_hash_def normalize_newlines_def replace_cr_def)
  from newline_fingerprint_stable[OF h, of "\<lambda>x. x" "[13, 13, 10]"] h e show ?thesis by simp
qed

section \<open>Properties of the symbol cache\<close>

subsection \<open>Popping positions\<close>

lemma pop_all_append:
  "pop_all is xs = Inr ys \<Longrightarrow> pop_all is (xs @ zs) = Inr (ys @ zs)"
proof (induction "is" arbitrary: xs)
  case Nil
  then show ?case by simp
next
  case (Cons i "is")
  from Cons.prems have i: "i < length xs"
    and r: "pop_all is (take i xs @ drop (Suc i) xs) = Inr ys"
    by (auto simp: pop_at_def split: if_splits)
  from Cons.IH[OF r] have "pop_all is ((take i xs @ drop (Suc i) xs) @ zs) = Inr (ys @ zs)" .
  with i show ?case by (simp add: pop_at_def)
qed

lemma pop_all_filter:
  "pop_all (filter (\<lambda>i. P (xs ! i)) (rev [0..<length xs])) xs = Inr (filter (\<lambda>x. \<not> P x) xs)"
proof (induction xs rule: rev_induct)
  case Nil
  then show ?case by simp
next
  case (snoc x xs)
  let ?n = "length xs"
  have same: "filter (\<lambda>i. P ((xs @ [x]) ! i)) (rev [0..<?n]) = filter (\<lambda>i. P (xs ! i)) (rev [0..<?n])"
    by (rule filter_cong) (auto simp: nth_append)
  show ?case
  proof (cases "P x")
    case True
    then have "filter (\<lambda>i. P ((xs @ [x]) ! i)) (rev [0..<length (xs @ [x])])
                 = ?n # filter (\<lambda>i. P (xs ! i)) (rev [0..<?n])"
      using same by simp
    with snoc True show ?thesis by (simp add: pop_at_def)
  next
    case False
    then have "filter (\<lambda>i. P ((xs @ [x]) ! i)) (rev [0..<length (xs @ [x])])
                 = filter (\<lambda>i. P (xs ! i)) (rev [0..<?n])"
      using same by simp
    with pop_all_append[OF snoc, of "[x]"] False show ?thesis by simp
  qed
qed

subsection \<open>Indices\<close>

lemma map_of_dict_append:
  "map_of (dict_append k v d) k'
     = (if k' = k then Some ((case map_of d k of None \<Rightarrow> [] | Some l \<Rightarrow> l) @ [v]) else map_of d k')"
  by (simp add: dict_append_def update_conv')

lemma distinct_dict_append:
  "distinct (map fst d) \<Longrightarrow> distinct (map fst (dict_append k v d))"
  by (simp add: dict_append_def distinct_update)

lemma positions_snoc:
  "positions P (xs @ [x]) = positions P xs @ (if P x then [length xs] else [])"
proof -
  have "filter (\<lambda>i. P ((xs @ [x]) ! i)) [0..<length xs] = filter (\<lambda>i. P (xs ! i)) [0..<length xs]"
    by (rule filter_cong) (auto simp: nth_append)
  then show ?thesis by (simp add: positions_def)
qed

lemma positions_bound: "i \<in> set (positions P xs) \<Longrightarrow> i < length xs"
  by (simp add: positions_def)

lemma index_entry_snoc:
  "Some ((case index_entry ps of None \<Rightarrow> [] | Some l \<Rightarrow> l) @ [i]) = index_entry (ps @ [i])"
  by (simp add: index_entry_def)

text \<open>Indexing the method at the end of the list keeps the indices exact.\<close>

lemma index_method_exact:
  assumes "\<forall>k. map_of (method_name_index c) k
            = index_entry (positions (\<lambda>mi. py_lower (m_name (mi_method mi)) = k) xs)"
    and "\<forall>k. map_of (method_module_index c) k
            = index_entry (positions (\<lambda>mi. mi_module mi \<noteq> [] \<and> py_lower (mi_module mi) = k) xs)"
    and "method_export_index c = positions (\<lambda>mi. m_is_export (mi_method mi)) xs"
  shows "(\<forall>k. map_of (method_name_index (index_method (length xs) x c)) k
            = index_entry (positions (\<lambda>mi. py_lower (m_name (mi_method mi)) = k) (xs @ [x])))
    \<and> (\<forall>k. map_of (method_module_index (index_method (length xs) x c)) k
            = index_entry (positions (\<lambda>mi. mi_module mi \<noteq> [] \<and> py_lower (mi_module mi) = k) (xs @ [x])))
    \<and> method_export_index (index_method (length xs) x c)
            = positions (\<lambda>mi. m_is_export (mi_method mi)) (xs @ [x])"
proof (intro conjI allI)
  fix k
  show "map_of (method_name_index (index_method (length xs) x c)) k
            = index_entry (positions (\<lambda>mi. py_lower (m_name (mi_method mi)) = k) (xs @ [x]))"
    using assms(1)
    by (simp add: index_method_def map_of_dict_append positions_snoc index_entry_snoc)
next
  fix k
  show "map_of (method_module_index (index_method (length xs) x c)) k
            = index_entry (positions (\<lambda>mi. mi_module mi \<noteq> [] \<and> py_lower (mi_module mi) = k) (xs @ [x]))"
    using assms(2)
    by (simp add: index_method_def map_of_dict_append positions_snoc index_entry_snoc)
next
  show "method_export_index (index_method (length xs) x c)
            = positions (\<lambda>mi. m_is_export (mi_method mi)) (xs @ [x])"
    using assms(3) by (simp add: index_method_def positions_snoc)
qed

lemma index_method_other:
  "methods (index_method i x c) = methods c"
  "module_vars (index_method i x c) = module_vars c"
  "calls (index_method i x c) = calls c"
  "modules (index_method i x c) = modules c"
  by (simp_all add: index_method_def)

lemma index_method_distinct:
  assumes "distinct (map fst (method_name_index c))" "distinct (map fst (method_module_index c))"
  shows "distinct (map fst (method_name_index (index_method i x c)))
       \<and> distinct (map fst (method_module_index (index_method i x c)))"
  using assms by (simp add: index_method_def distinct_dict_append)

lemma add_method_exact: "indices_exact c \<Longrightarrow> indices_exact (add_method c m f md)"
proof -
  assume a: "indices_exact c"
  let ?x = "\<lparr>mi_method = m, mi_filename = f, mi_module = md\<rparr>"
  let ?c = "c\<lparr>methods := methods c @ [?x]\<rparr>"
  from a have "(\<forall>k. map_of (method_name_index ?c) k
            = index_entry (positions (\<lambda>mi. py_lower (m_name (mi_method mi)) = k) (methods c)))"
     "(\<forall>k. map_of (method_module_index ?c) k
            = index_entry (positions (\<lambda>mi. mi_module mi \<noteq> [] \<and> py_lower (mi_module mi) = k) (methods c)))"
     "method_export_index ?c = positions (\<lambda>mi. m_is_export (mi_method mi)) (methods c)"
    by (simp_all add: indices_exact_def)
  from index_method_exact[OF this, of ?x]
  show ?thesis
    by (simp add: indices_exact_def add_method_def Let_def index_method_other)
qed

lemma build_snoc: "build (xs @ [x]) c = index_method (length xs) x (build xs c)"
  by (simp add: build_def enumerate_append_eq)

lemma build_other:
  "methods (build xs c) = methods c \<and> module_vars (build xs c) = module_vars c
   \<and> calls (build xs c) = calls c \<and> modules (build xs c) = modules c"
  by (induction xs rule: rev_induct) (simp_all add: build_snoc index_method_other, simp add: build_def)

lemma build_exact:
  assumes "method_name_index c = []" "method_module_index c = []" "method_export_index c = []"
  shows "(\<forall>k. map_of (method_name_index (build xs c)) k
            = index_entry (positions (\<lambda>mi. py_lower (m_name (mi_method mi)) = k) xs))
    \<and> (\<forall>k. map_of (method_module_index (build xs c)) k
            = index_entry (positions (\<lambda>mi. mi_module mi \<noteq> [] \<and> py_lower (mi_module mi) = k) xs))
    \<and> method_export_index (build xs c) = positions (\<lambda>mi. m_is_export (mi_method mi)) xs
    \<and> distinct (map fst (method_name_index (build xs c)))
    \<and> distinct (map fst (method_module_index (build xs c)))"
proof (induction xs rule: rev_induct)
  case Nil
  then show ?case using assms by (simp add: build_def positions_def index_entry_def)
next
  case (snoc x xs)
  then show ?case
    using index_method_exact[of "build xs c" xs x] index_method_distinct[of "build xs c" "length xs" x]
    by (simp add: build_snoc)
qed

lemma rebuild_indices_exact:
  "indices_exact (rebuild_indices c)
   \<and> distinct (map fst (method_name_index (rebuild_indices c)))
   \<and> distinct (map fst (method_module_index (rebuild_indices c)))
   \<and> methods (rebuild_indices c) = methods c \<and> module_vars (rebuild_indices c) = module_vars c
   \<and> calls (rebuild_indices c) = calls c \<and> modules (rebuild_indices c) = modules c"
proof -
  let ?c0 = "c\<lparr>method_name_index := [], method_module_index := [], method_export_index := []\<rparr>"
  have r: "rebuild_indices c = build (methods c) ?c0"
    by (simp add: rebuild_indices_def build_def)
  from build_exact[of ?c0 "methods c"] build_other[of "methods c" ?c0] r
  show ?thesis by (simp add: indices_exact_def)
qed

subsection \<open>The call map\<close>

lemma filter_calls_fold:
  assumes "distinct (map fst items)"
    and "fold (filter_calls_step f) items (d, tr) = (d', tr')"
  shows "(\<forall>k. map_of d' k =
            (case map_of items k of
               None \<Rightarrow> map_of d k
             | Some l \<Rightarrow> if filter (\<lambda>call. ci_filename call \<noteq> f) l = [] then map_of d k
                         else Some (filter (\<lambda>call. ci_filename call \<noteq> f) l)))
       \<and> set tr' = set tr \<union> {k. \<exists>l. (k, l) \<in> set items \<and> filter (\<lambda>call. ci_filename call \<noteq> f) l = []}
       \<and> (distinct (map fst d) \<longrightarrow> distinct (map fst d'))"
  using assms
proof (induction items arbitrary: d tr)
  case Nil
  then show ?case by simp
next
  case (Cons item items)
  obtain k l where item: "item = (k, l)" by (cases item)
  let ?fl = "filter (\<lambda>call. ci_filename call \<noteq> f) l"
  let ?d1 = "if ?fl = [] then d else AList.update k ?fl d"
  let ?t1 = "if ?fl = [] then tr @ [k] else tr"
  have step: "filter_calls_step f item (d, tr) = (?d1, ?t1)"
    by (simp add: filter_calls_step_def item Let_def)
  from Cons.prems item have dist: "distinct (map fst items)" and knot: "k \<notin> fst ` set items" by auto
  from Cons.prems(2) step have f: "fold (filter_calls_step f) items (?d1, ?t1) = (d', tr')" by simp
  note IH = Cons.IH[OF dist f]
  have knone: "map_of items k = None" using knot by (simp add: map_of_eq_None_iff)
  show ?case
  proof (intro conjI allI)
    fix k'
    show "map_of d' k' =
            (case map_of (item # items) k' of
               None \<Rightarrow> map_of d k'
             | Some l \<Rightarrow> if filter (\<lambda>call. ci_filename call \<noteq> f) l = [] then map_of d k'
                         else Some (filter (\<lambda>call. ci_filename call \<noteq> f) l))"
    proof (cases "k' = k")
      case True
      with IH knone item show ?thesis by (simp add: update_conv')
    next
      case False
      with IH item show ?thesis by (simp add: update_conv' split: option.splits)
    qed
  next
    show "set tr' = set tr \<union> {k. \<exists>l. (k, l) \<in> set (item # items) \<and> filter (\<lambda>call. ci_filename call \<noteq> f) l = []}"
      using IH item by auto
  next
    show "distinct (map fst d) \<longrightarrow> distinct (map fst d')"
      using IH by (auto simp: distinct_update)
  qed
qed

lemma map_of_fold_delete:
  "map_of (fold AList.delete ks d) k = (if k \<in> set ks then None else map_of d k)"
  by (induction ks arbitrary: d) (auto simp: delete_conv')

lemma distinct_fold_delete:
  "distinct (map fst d) \<Longrightarrow> distinct (map fst (fold AList.delete ks d))"
  by (induction ks arbitrary: d) (auto simp: distinct_delete)

lemma filtered_calls:
  assumes "distinct (map fst cs)"
    and "fold (filter_calls_step f) cs (cs, []) = (d, tr)"
  shows "distinct (map fst (fold AList.delete tr d))
       \<and> list_all (\<lambda>(k, l). l \<noteq> [] \<and> list_all (\<lambda>call. ci_filename call \<noteq> f) l) (fold AList.delete tr d)"
proof -
  let ?r = "fold AList.delete tr d"
  from filter_calls_fold[OF assms]
  have m: "\<And>k. map_of d k =
            (case map_of cs k of
               None \<Rightarrow> None
             | Some l \<Rightarrow> if filter (\<lambda>call. ci_filename call \<noteq> f) l = [] then Some l
                         else Some (filter (\<lambda>call. ci_filename call \<noteq> f) l))"
    and t: "set tr = {k. \<exists>l. (k, l) \<in> set cs \<and> filter (\<lambda>call. ci_filename call \<noteq> f) l = []}"
    and dd: "distinct (map fst d)"
    using assms(1) by (auto split: option.splits)
  have dr: "distinct (map fst ?r)" using dd by (rule distinct_fold_delete)
  have "l \<noteq> [] \<and> list_all (\<lambda>call. ci_filename call \<noteq> f) l" if kl: "(k, l) \<in> set ?r" for k l
  proof -
    from kl dr have "map_of ?r k = Some l" by simp
    then have nk: "k \<notin> set tr" and dk: "map_of d k = Some l"
      by (auto simp: map_of_fold_delete split: if_splits)
    from dk m[of k] obtain l0 where l0: "map_of cs k = Some l0"
      and l: "l = (if filter (\<lambda>call. ci_filename call \<noteq> f) l0 = [] then l0
                   else filter (\<lambda>call. ci_filename call \<noteq> f) l0)"
      by (auto split: option.splits if_splits)
    from l0 have "(k, l0) \<in> set cs" by (rule map_of_SomeD)
    with nk t have "filter (\<lambda>call. ci_filename call \<noteq> f) l0 \<noteq> []" by auto
    with l have "l = filter (\<lambda>call. ci_filename call \<noteq> f) l0" "l \<noteq> []" by simp_all
    then show ?thesis by (auto simp: list_all_iff)
  qed
  then show ?thesis using dr by (auto simp: list_all_iff)
qed

subsection \<open>Removal of a file\<close>

lemma exact_valid:
  assumes "indices_exact c" "distinct (map fst (method_name_index c))"
    "distinct (map fst (method_module_index c))"
  shows "index_valid c"
proof -
  have n: "list_all (\<lambda>i. i < length (methods c)) ps" if "(k, ps) \<in> set (method_name_index c)" for k ps
  proof -
    from that assms(2) have "map_of (method_name_index c) k = Some ps" by simp
    with assms(1) have "ps = positions (\<lambda>mi. py_lower (m_name (mi_method mi)) = k) (methods c)"
      by (auto simp: indices_exact_def index_entry_def split: if_splits)
    then show ?thesis by (auto simp: list_all_iff positions_bound)
  qed
  have m: "list_all (\<lambda>i. i < length (methods c)) ps" if "(k, ps) \<in> set (method_module_index c)" for k ps
  proof -
    from that assms(3) have "map_of (method_module_index c) k = Some ps" by simp
    with assms(1) have "ps = positions (\<lambda>mi. mi_module mi \<noteq> [] \<and> py_lower (mi_module mi) = k) (methods c)"
      by (auto simp: indices_exact_def index_entry_def split: if_splits)
    then show ?thesis by (auto simp: list_all_iff positions_bound)
  qed
  have e: "list_all (\<lambda>i. i < length (methods c)) (method_export_index c)"
    using assms(1) by (auto simp: indices_exact_def list_all_iff positions_bound)
  from n m e show ?thesis by (auto simp: index_valid_def list_all_iff)
qed

lemma in_positions: "i < length xs \<Longrightarrow> P (xs ! i) \<Longrightarrow> i \<in> set (positions P xs)"
  by (simp add: positions_def)

lemma exact_complete:
  assumes "indices_exact c"
  shows "index_complete c"
proof -
  have "i \<in> set (lookup_index (method_name_index c) (py_lower (m_name (mi_method (methods c ! i)))))
      \<and> (mi_module (methods c ! i) \<noteq> [] \<longrightarrow>
            i \<in> set (lookup_index (method_module_index c) (py_lower (mi_module (methods c ! i)))))
      \<and> (m_is_export (mi_method (methods c ! i)) \<longrightarrow> i \<in> set (method_export_index c))"
    if i: "i < length (methods c)" for i
  proof (intro conjI impI)
    let ?k = "py_lower (m_name (mi_method (methods c ! i)))"
    have "i \<in> set (positions (\<lambda>mi. py_lower (m_name (mi_method mi)) = ?k) (methods c))"
      using i by (intro in_positions) simp_all
    moreover from assms have "map_of (method_name_index c) ?k
        = index_entry (positions (\<lambda>mi. py_lower (m_name (mi_method mi)) = ?k) (methods c))"
      by (simp add: indices_exact_def)
    ultimately show "i \<in> set (lookup_index (method_name_index c) ?k)"
      by (auto simp: lookup_index_def index_entry_def)
  next
    assume ne: "mi_module (methods c ! i) \<noteq> []"
    let ?k = "py_lower (mi_module (methods c ! i))"
    have "i \<in> set (positions (\<lambda>mi. mi_module mi \<noteq> [] \<and> py_lower (mi_module mi) = ?k) (methods c))"
      using i ne by (intro in_positions) simp_all
    moreover from assms have "map_of (method_module_index c) ?k
        = index_entry (positions (\<lambda>mi. mi_module mi \<noteq> [] \<and> py_lower (mi_module mi) = ?k) (methods c))"
      by (simp add: indices_exact_def)
    ultimately show "i \<in> set (lookup_index (method_module_index c) ?k)"
      by (auto simp: lookup_index_def index_entry_def)
  next
    assume "m_is_export (mi_method (methods c ! i))"
    with i assms show "i \<in> set (method_export_index c)"
      by (simp add: indices_exact_def in_positions)
  qed
  then show ?thesis by (auto simp: index_complete_def list_all_iff Let_def)
qed

lemma remove_file_data_result:
  assumes "distinct (map fst (calls c))"
  shows "\<exists>c'. remove_file_data c f = Inr c'
      \<and> methods c' = filter (\<lambda>mi. mi_filename mi \<noteq> f) (methods c)
      \<and> file_absent f c' \<and> no_empty_calls c' \<and> indices_exact c'
      \<and> distinct (map fst (calls c'))
      \<and> distinct (map fst (method_name_index c'))
      \<and> distinct (map fst (method_module_index c'))
      \<and> (distinct (map fst (module_vars c)) \<longrightarrow> distinct (map fst (module_vars c')))"
proof -
  let ?ms = "filter (\<lambda>mi. mi_filename mi \<noteq> f) (methods c)"
  have pop: "pop_all (filter (\<lambda>idx. mi_filename (methods c ! idx) = f) (rev [0..<length (methods c)])) (methods c)
               = Inr ?ms"
    using pop_all_filter[of "\<lambda>mi. mi_filename mi = f" "methods c"] by simp
  let ?c1 = "rebuild_indices (c\<lparr>methods := ?ms\<rparr>)"
  note r = rebuild_indices_exact[of "c\<lparr>methods := ?ms\<rparr>"]
  let ?c2 = "?c1\<lparr>module_vars := AList.delete f (module_vars ?c1)\<rparr>"
  obtain d tr where fo: "fold (filter_calls_step f) (calls ?c2) (calls ?c2, []) = (d, tr)"
    by (cases "fold (filter_calls_step f) (calls ?c2) (calls ?c2, [])")
  have cc: "calls ?c2 = calls c" using r by simp
  from filtered_calls[OF _ fo] assms cc
  have fc: "distinct (map fst (fold AList.delete tr d))"
    "list_all (\<lambda>(k, l). l \<noteq> [] \<and> list_all (\<lambda>call. ci_filename call \<noteq> f) l) (fold AList.delete tr d)"
    by simp_all
  let ?c3 = "?c2\<lparr>calls := fold AList.delete tr d\<rparr>"
  let ?c4 = "?c3\<lparr>modules := filter (\<lambda>module. mod_filename module \<noteq> f) (modules ?c3)\<rparr>"
  have res: "remove_file_data c f = Inr ?c4"
    using pop fo by (simp add: remove_file_data_def Let_def)
  have ms: "methods ?c4 = ?ms" using r by simp
  have ex: "indices_exact ?c4" using r by (simp add: indices_exact_def)
  have fa: "file_absent f ?c4"
    using fc(2) r by (auto simp: file_absent_def list_all_iff delete_notin_dom)
  have ne: "no_empty_calls ?c4" using fc(2) by (auto simp: no_empty_calls_def list_all_iff)
  have dv: "distinct (map fst (module_vars c)) \<longrightarrow> distinct (map fst (module_vars ?c4))"
    using r by (simp add: distinct_delete)
  from res ms ex fa ne fc(1) r dv show ?thesis by simp
qed

subsection \<open>The invariant of the cache\<close>

lemma add_method_wf: "dicts_wf c \<Longrightarrow> dicts_wf (add_method c m f md)"
  using index_method_distinct[of "c\<lparr>methods := methods c @ [\<lparr>mi_method = m, mi_filename = f, mi_module = md\<rparr>]\<rparr>"]
  by (simp add: dicts_wf_def add_method_def Let_def index_method_other)

lemma add_module_var_inv:
  "indices_exact c \<and> dicts_wf c \<Longrightarrow> indices_exact (add_module_var c v f) \<and> dicts_wf (add_module_var c v f)"
  by (simp add: indices_exact_def dicts_wf_def add_module_var_def distinct_dict_append)

lemma add_call_inv:
  "indices_exact c \<and> dicts_wf c \<Longrightarrow> indices_exact (add_call c cl f mn md) \<and> dicts_wf (add_call c cl f mn md)"
  by (simp add: indices_exact_def dicts_wf_def add_call_def Let_def distinct_dict_append)

lemma add_methods_batch_inv:
  "indices_exact c \<and> dicts_wf c \<Longrightarrow> indices_exact (add_methods_batch c ms) \<and> dicts_wf (add_methods_batch c ms)"
  unfolding add_methods_batch_def
  by (induction ms arbitrary: c) (auto simp: add_method_exact add_method_wf)

lemma add_module_vars_batch_inv:
  "indices_exact c \<and> dicts_wf c \<Longrightarrow>
     indices_exact (add_module_vars_batch c vs) \<and> dicts_wf (add_module_vars_batch c vs)"
  unfolding add_module_vars_batch_def
proof (induction vs arbitrary: c)
  case Nil
  then show ?case by simp
next
  case (Cons a vs)
  obtain v f where a: "a = (v, f)" by (cases a)
  from add_module_var_inv[OF Cons.prems, of v f] Cons.IH[of "add_module_var c v f"] a
  show ?case by simp
qed

lemma add_calls_batch_inv:
  "indices_exact c \<and> dicts_wf c \<Longrightarrow>
     indices_exact (add_calls_batch c cs) \<and> dicts_wf (add_calls_batch c cs)"
  unfolding add_calls_batch_def
proof (induction cs arbitrary: c)
  case Nil
  then show ?case by simp
next
  case (Cons a cs)
  obtain cl f mn md where a: "a = (cl, f, mn, md)" by (cases a)
  from add_call_inv[OF Cons.prems, of cl f mn md] Cons.IH[of "add_call c cl f mn md"] a
  show ?case by simp
qed

lemma empty_cache_inv: "indices_exact empty_cache \<and> dicts_wf empty_cache"
  by (simp add: indices_exact_def dicts_wf_def empty_cache_def positions_def index_entry_def)

lemma apply_op_inv:
  assumes "indices_exact c \<and> dicts_wf c"
  shows "\<exists>c'. apply_op op c = Inr c' \<and> indices_exact c' \<and> dicts_wf c'"
proof (cases op)
  case (Add_method m f md)
  with assms show ?thesis by (simp add: add_method_exact add_method_wf)
next
  case (Add_module_var v f)
  with add_module_var_inv[OF assms] show ?thesis by simp
next
  case (Add_call cl f mn md)
  with add_call_inv[OF assms] show ?thesis by simp
next
  case (Add_methods_batch ms)
  with add_methods_batch_inv[OF assms] show ?thesis by simp
next
  case (Add_module_vars_batch vs)
  with add_module_vars_batch_inv[OF assms] show ?thesis by simp
next
  case (Add_calls_batch cs)
  with add_calls_batch_inv[OF assms] show ?thesis by simp
next
  case (Add_module mi)
  with assms show ?thesis by (simp add: add_module_def indices_exact_def dicts_wf_def)
next
  case Clear
  with empty_cache_inv show ?thesis by (simp add: clear_def)
next
  case (Remove_file_data f)
  from assms have "distinct (map fst (calls c))" "distinct (map fst (module_vars c))"
    by (simp_all add: dicts_wf_def)
  with remove_file_data_result[of c f] Remove_file_data show ?thesis
    by (auto simp: dicts_wf_def)
qed

lemma run_ops_inv:
  assumes "indices_exact c \<and> dicts_wf c"
  shows "\<exists>c'. run_ops ops c = Inr c' \<and> indices_exact c' \<and> dicts_wf c'"
  using assms
proof (induction ops arbitrary: c)
  case Nil
  then show ?case by simp
next
  case (Cons op ops)
  from apply_op_inv[OF Cons.prems, of op] obtain c1 where
    "apply_op op c = Inr c1" "indices_exact c1 \<and> dicts_wf c1" by auto
  with Cons.IH[of c1] show ?case by simp
qed

lemma demo_cache_removed:
  "remove_file_data demo_cache (ascii ''a.bsl'') =
     Inr \<lparr>methods = [\<lparr>mi_method = demo_method (ascii ''foo'') False, mi_filename = ascii ''b.bsl'',
                      mi_module = ascii ''ModB''\<rparr>],
          module_vars = [],
          calls = [(ascii ''Bar'', [\<lparr>ci_filename = ascii ''b.bsl'', ci_call = ascii ''Bar'', ci_line = 1,
                      ci_character = 2, ci_method_name = ascii ''foo'', ci_module = ascii ''ModB''\<rparr>])],
          modules = [],
          method_name_index = [(ascii ''foo'', [0])],
          method_module_index = [(ascii ''modb'', [0])],
          method_export_index = []\<rparr>"
  by code_simp

lemma demo_cache_before:
  "map (\<lambda>mi. mi_filename mi) (methods demo_cache) = [ascii ''a.bsl'', ascii ''b.bsl'', ascii ''a.bsl'']
   \<and> method_name_index demo_cache = [(ascii ''foo'', [0, 1]), (ascii ''baz'', [2])]
   \<and> method_export_index demo_cache = [0, 2]
   \<and> map fst (calls demo_cache) = [ascii ''Bar'', ascii ''Qux'']"
  by code_simp

text \<open>
  Claim C3. For every cache state (a Python dictionary holds every key once) and every
  filename \<open>f\<close>, \<open>remove_file_data(f)\<close> returns and leaves exactly the methods of the
  other files, in their order; no record with filename \<open>f\<close> remains in \<open>methods\<close>,
  \<open>module_vars\<close>, \<open>calls\<close> or \<open>modules\<close>; no key of the call map has an empty list;
  the name, module and export indices hold exactly the positions of the surviving
  methods, so every entry is a valid position and every method is found in each index
  that should hold it. The same holds of the indices after every sequence of add, clear
  and remove operations run from the empty cache.
\<close>

theorem remove_file_data_keeps_indices:
  assumes "distinct (map fst (calls c))"
  shows "\<exists>c' c''. remove_file_data c f = Inr c'
      \<and> methods c' = filter (\<lambda>mi. mi_filename mi \<noteq> f) (methods c)
      \<and> file_absent f c' \<and> no_empty_calls c'
      \<and> indices_exact c' \<and> index_valid c' \<and> index_complete c'
      \<and> run_ops ops empty_cache = Inr c''
      \<and> indices_exact c'' \<and> index_valid c'' \<and> index_complete c''"
proof -
  from remove_file_data_result[OF assms, of f] obtain c' where
    r: "remove_file_data c f = Inr c'"
      "methods c' = filter (\<lambda>mi. mi_filename mi \<noteq> f) (methods c)"
      "file_absent f c'" "no_empty_calls c'" "indices_exact c'"
      "distinct (map fst (method_name_index c'))" "distinct (map fst (method_module_index c'))"
    by blast
  from run_ops_inv[OF empty_cache_inv, of ops] obtain c'' where
    o: "run_ops ops empty_cache = Inr c''" "indices_exact c''" "dicts_wf c''" by blast
  have "index_valid c'" using r by (intro exact_valid) simp_all
  moreover have "index_valid c''" using o by (intro exact_valid) (simp_all add: dicts_wf_def)
  ultimately show ?thesis using r o exact_complete by blast
qed

theorem remove_file_data_keeps_indices_witness:
  "distinct (map fst (calls demo_cache))
   \<and> (\<exists>c'. remove_file_data demo_cache (ascii ''a.bsl'') = Inr c'
        \<and> map (\<lambda>mi. mi_filename mi) (methods c') = [ascii ''b.bsl'']
        \<and> method_name_index c' = [(ascii ''foo'', [0])]
        \<and> map fst (calls c') = [ascii ''Bar'']
        \<and> file_absent (ascii ''a.bsl'') c' \<and> index_valid c' \<and> index_complete c')"
proof -
  have h: "distinct (map fst (calls demo_cache))"
    using demo_cache_before by (simp add: ascii_def)
  from remove_file_data_keeps_indices[OF h, of "ascii ''a.bsl''" "[]"] obtain c' where
    r: "remove_file_data demo_cache (ascii ''a.bsl'') = Inr c'"
    and p: "file_absent (ascii ''a.bsl'') c'" "index_valid c'" "index_complete c'"
    by blast
  from r have e: "c' = \<lparr>methods = [\<lparr>mi_method = demo_method (ascii ''foo'') False, mi_filename = ascii ''b.bsl'',
                      mi_module = ascii ''ModB''\<rparr>],
          module_vars = [],
          calls = [(ascii ''Bar'', [\<lparr>ci_filename = ascii ''b.bsl'', ci_call = ascii ''Bar'', ci_line = 1,
                      ci_character = 2, ci_method_name = ascii ''foo'', ci_module = ascii ''ModB''\<rparr>])],
          modules = [],
          method_name_index = [(ascii ''foo'', [0])],
          method_module_index = [(ascii ''modb'', [0])],
          method_export_index = []\<rparr>"
    unfolding demo_cache_removed by simp
  have q: "map (\<lambda>mi. mi_filename mi) (methods c') = [ascii ''b.bsl'']"
    "method_name_index c' = [(ascii ''foo'', [0])]"
    "map fst (calls c') = [ascii ''Bar'']"
    by (simp_all add: e)
  show ?thesis
    using h r p q by (intro conjI exI[of _ c']) assumption+
qed

section \<open>Properties of the cache statistics file\<close>

text \<open>
  Claim C9. When the dirty flag of the document-symbols cache is clear, the statistics
  file is not written. When the flag is set, the in-memory symbol cache has no methods,
  the previous statistics file is a document whose \<open>bsl\<close> block has a positive method
  count, and the write succeeds, the document written holds that previous \<open>bsl\<close> block
  and not the in-memory counts.
\<close>

theorem save_cache_stats_preserves_previous:
  "(\<not> document_symbols_cache_is_modified s \<longrightarrow> save_cache_stats s prev now can_write = None)
   \<and> (document_symbols_cache_is_modified s \<and> methods (local_cache s) = []
        \<and> bsl existing = Some b \<and> 0 < dict_get b ''methods'' 0 \<and> can_write
      \<longrightarrow> (\<exists>doc. save_cache_stats s (Stats_doc existing) now can_write = Some doc
               \<and> bsl doc = Some b
               \<and> indexed_files doc = document_symbols_cache_size s))"
proof (intro conjI impI)
  assume "\<not> document_symbols_cache_is_modified s"
  then show "save_cache_stats s prev now can_write = None"
    by (simp add: save_cache_stats_def)
next
  assume a: "document_symbols_cache_is_modified s \<and> methods (local_cache s) = []
        \<and> bsl existing = Some b \<and> 0 < dict_get b ''methods'' 0 \<and> can_write"
  then have ne: "b \<noteq> []" by (auto simp: dict_get_def)
  have z: "dict_get (get_stats (local_cache s)) ''methods'' 0 = 0"
    using a by (simp add: get_stats_def dict_get_def)
  have "choose_bsl_stats s (Stats_doc existing) = Inr b"
    using a ne z by (simp add: choose_bsl_stats_def Let_def)
  with a show "\<exists>doc. save_cache_stats s (Stats_doc existing) now can_write = Some doc
               \<and> bsl doc = Some b \<and> indexed_files doc = document_symbols_cache_size s"
    by (simp add: save_cache_stats_def)
qed

theorem save_cache_stats_preserves_previous_witness:
  "save_cache_stats (demo_bsl_server\<lparr>document_symbols_cache_is_modified := False\<rparr>)
       (Stats_doc demo_stats_doc) (ascii ''t'') True = None
   \<and> dict_get (get_stats (local_cache demo_bsl_server)) ''methods'' 0 = 0
   \<and> (\<exists>doc. save_cache_stats demo_bsl_server (Stats_doc demo_stats_doc) (ascii ''t'') True = Some doc
         \<and> bsl doc = bsl demo_stats_doc
         \<and> dict_get (the (bsl doc)) ''methods'' 0 = 12)"
proof -
  have h: "document_symbols_cache_is_modified demo_bsl_server \<and> methods (local_cache demo_bsl_server) = []
        \<and> bsl demo_stats_doc = Some [(''methods'', 12), (''exported_methods'', 3), (''module_vars'', 1), (''calls'', 40),
                  (''unique_calls'', 9), (''modules'', 0)]
        \<and> 0 < dict_get [(''methods'', 12::nat), (''exported_methods'', 3), (''module_vars'', 1), (''calls'', 40),
                  (''unique_calls'', 9), (''modules'', 0)] ''methods'' 0 \<and> True"
    by (simp add: demo_bsl_server_def demo_stats_doc_def empty_cache_def dict_get_def)
  have n: "\<not> document_symbols_cache_is_modified (demo_bsl_server\<lparr>document_symbols_cache_is_modified := False\<rparr>)"
    by simp
  have z: "dict_get (get_stats (local_cache demo_bsl_server)) ''methods'' 0 = 0"
    by (simp add: demo_bsl_server_def empty_cache_def get_stats_def dict_get_def)
  from save_cache_stats_preserves_previous[where s = "demo_bsl_server\<lparr>document_symbols_cache_is_modified := False\<rparr>"
      and prev = "Stats_doc demo_stats_doc" and now = "ascii ''t''" and can_write = True]
    n have a: "save_cache_stats (demo_bsl_server\<lparr>document_symbols_cache_is_modified := False\<rparr>)
       (Stats_doc demo_stats_doc) (ascii ''t'') True = None" by blast
  from save_cache_stats_preserves_previous[where s = demo_bsl_server and existing = demo_stats_doc
      and now = "ascii ''t''" and can_write = True] h
  obtain doc where d: "save_cache_stats demo_bsl_server (Stats_doc demo_stats_doc) (ascii ''t'') True = Some doc"
    "bsl doc = bsl demo_stats_doc" by auto
  have "dict_get (the (bsl doc)) ''methods'' 0 = 12"
    using d(2) by (simp add: demo_stats_doc_def dict_get_def)
  with a z d show ?thesis by blast
qed

section \<open>Properties of the parser\<close>

subsection \<open>Steps that may raise\<close>

lemma ebind_Inr_iff: "ebind x f = Inr y \<longleftrightarrow> (\<exists>a. x = Inr a \<and> f a = Inr y)"
  by (cases x) (simp_all add: ebind_def)

lemma ebind_Inr [simp]: "ebind (Inr a) f = f a"
  by (simp add: ebind_def)

lemma emap_all:
  "(\<And>x. x \<in> set xs \<Longrightarrow> f x = Inr (g x)) \<Longrightarrow> emap f xs = Inr (map g xs)"
  by (induction xs) simp_all

lemma emap_total:
  assumes "\<And>x. x \<in> set xs \<Longrightarrow> \<exists>y. f x = Inr y"
  shows "\<exists>ys. emap f xs = Inr ys"
proof -
  have "f x = Inr (projr (f x))" if "x \<in> set xs" for x
    using assms[OF that] by auto
  from emap_all[of xs f "\<lambda>x. projr (f x)", OF this] show ?thesis by blast
qed

lemma emap_Inr:
  "emap f xs = Inr ys \<Longrightarrow> list_all2 (\<lambda>x y. f x = Inr y) xs ys"
proof (induction xs arbitrary: ys)
  case Nil
  then show ?case by simp
next
  case (Cons x xs)
  from Cons.prems obtain y ys' where "f x = Inr y" "emap f xs = Inr ys'" "ys = y # ys'"
    by (auto simp: ebind_Inr_iff)
  with Cons.IH[of ys'] show ?case by simp
qed

subsection \<open>Matches carry the groups of their pattern\<close>

lemma finditer_from_groups:
  "m \<in> set (finditer_from r s pos) \<Longrightarrow> must_groups r \<subseteq> fst ` set (re_groups m)"
proof (induction r s pos rule: finditer_from.induct)
  case (1 r s pos)
  show ?case
  proof (cases "search r s pos")
    case None
    with 1(2) show ?thesis by (simp add: finditer_from.simps[of r s pos])
  next
    case (Some m')
    with 1(2) have "m = m' \<or> m \<in> set (finditer_from r s
        (if re_end m' = re_start m' then Suc (re_end m') else re_end m'))"
      by (simp add: finditer_from.simps[of r s pos])
    then show ?thesis
    proof
      assume "m = m'"
      with search_bounds[OF Some] show ?thesis by simp
    next
      assume "m \<in> set (finditer_from r s
        (if re_end m' = re_start m' then Suc (re_end m') else re_end m'))"
      with 1(1)[OF Some] show ?thesis by simp
    qed
  qed
qed

lemma need_group_finditer:
  assumes "m \<in> set (finditer r s)" "n \<in> must_groups r"
  shows "\<exists>t. need_group e s m n = Inr t \<and> match_group s m n = Some t"
proof -
  from finditer_from_groups[of m r s 0] assms have "n \<in> fst ` set (re_groups m)"
    by (auto simp: finditer_def)
  then have "map_of (re_groups m) n \<noteq> None" by (simp add: map_of_eq_None_iff)
  then show ?thesis by (auto simp: need_group_def match_group_def)
qed

lemma need_group_search:
  assumes "search r s pos = Some m" "n \<in> must_groups r"
  shows "\<exists>t. need_group e s m n = Inr t"
proof -
  from search_bounds[OF assms(1)] assms(2) have "n \<in> fst ` set (re_groups m)" by auto
  then have "map_of (re_groups m) n \<noteq> None" by (simp add: map_of_eq_None_iff)
  then show ?thesis by (auto simp: need_group_def match_group_def)
qed

lemma group1_patterns:
  "1 \<in> must_groups PROC_PATTERN" "1 \<in> must_groups FUNC_PATTERN"
  "1 \<in> must_groups MODULE_VAR_PATTERN" "1 \<in> must_groups CALL_PATTERN"
  "1 \<in> must_groups CONTEXT_PATTERN" "1 \<in> must_groups PARAM_PATTERN"
  by (simp_all add: PROC_PATTERN_def FUNC_PATTERN_def method_pattern_def MODULE_VAR_PATTERN_def
        CALL_PATTERN_def CONTEXT_PATTERN_def PARAM_PATTERN_def)

subsection \<open>Line numbers stay inside the list of lines\<close>

lemma str_split_nonempty: "str_split c s \<noteq> []"
  by (induction s) (auto split: list.splits)

lemma length_str_split: "length (str_split c s) = Suc (count_list s c)"
  by (induction s) (auto split: list.splits simp: str_split_nonempty)

lemma count_take_le: "count_list (take k s) c \<le> count_list s c"
proof -
  have "count_list s c = count_list (take k s) c + count_list (drop k s) c"
    by (metis append_take_drop_id count_list_append)
  then show ?thesis by simp
qed

lemma line_of_pos: "count_list (take k s) 10 < length (str_split 10 s)"
  using count_take_le[of k s 10] by (simp add: length_str_split)

lemma verify_start_line_bound:
  "start_line < length lines \<Longrightarrow> verify_start_line lines nm start_line offs < length lines"
  by (induction offs) (auto simp: Let_def)

subsection \<open>No step of the parser raises\<close>

lemma description_loop_total:
  "\<forall>i \<in> set is. i < length lines \<Longrightarrow> \<exists>r. description_loop lines is acc = Inr r"
proof (induction "is" arbitrary: acc)
  case Nil
  then show ?case by simp
next
  case (Cons i "is")
  then have i: "nth_err lines i = Inr (lines ! i)" by (simp add: nth_err_def)
  from Cons have IH: "\<And>acc. \<exists>r. description_loop lines is acc = Inr r" by simp
  show ?case
    using IH by (simp add: i Let_def)
qed

lemma extract_description_before_total:
  "line_num \<le> length lines \<Longrightarrow> \<exists>d. extract_description_before lines line_num = Inr d"
proof -
  assume "line_num \<le> length lines"
  then have "\<forall>i \<in> set [line_num - 20..<line_num]. i < length lines" by auto
  from description_loop_total[OF this, of "[]"] show ?thesis
    by (auto simp: extract_description_before_def)
qed

lemma extract_context_total: "\<exists>c. extract_context line = Inr c"
proof (cases "search CONTEXT_PATTERN line 0")
  case None
  then show ?thesis by (simp add: extract_context_def)
next
  case (Some m)
  from need_group_search[OF Some group1_patterns(5), of AttributeError] obtain t where
    "need_group AttributeError line m 1 = Inr t" by blast
  with Some show ?thesis by (simp add: extract_context_def)
qed

lemma params_of_total: "\<exists>ps. params_of text = Inr ps"
proof (cases "strip text \<noteq> []")
  case False
  then show ?thesis by (simp add: params_of_def)
next
  case True
  have "\<exists>p. param_of text m = Inr p" if "m \<in> set (finditer PARAM_PATTERN text)" for m
  proof -
    from need_group_finditer[OF that group1_patterns(6), of TypeError] obtain t where
      "need_group TypeError text m 1 = Inr t" by blast
    then show ?thesis by (simp add: param_of_def Let_def)
  qed
  from emap_total[of "finditer PARAM_PATTERN text" "param_of text", OF this] True
  show ?thesis by (simp add: params_of_def)
qed

lemma extract_params_total: "\<exists>ps. extract_params source start_pos lines start_line = Inr ps"
  using params_of_total
  by (auto simp: extract_params_def Let_def split: option.splits)

lemma end_loop_total:
  "\<forall>i \<in> set is. i < length lines \<Longrightarrow> \<exists>r. end_loop lines ep is depth = Inr r"
proof (induction "is" arbitrary: depth)
  case Nil
  then show ?case by simp
next
  case (Cons i "is")
  then have i: "nth_err lines i = Inr (lines ! i)" by (simp add: nth_err_def)
  from Cons have IH: "\<And>depth. \<exists>r. end_loop lines ep is depth = Inr r" by simp
  show ?case
    using IH by (auto simp: i Let_def split: option.splits)
qed

lemma find_method_end_total: "\<exists>r. find_method_end source start_line is_proc = Inr r"
proof -
  have "\<forall>i \<in> set [start_line + 1..<length (str_split 10 source)]. i < length (str_split 10 source)"
    by auto
  from end_loop_total[OF this] show ?thesis
    by (simp add: find_method_end_def Let_def)
qed

lemma parse_method_from_match_total:
  assumes "must_groups r \<subseteq> fst ` set (re_groups m)" "1 \<in> must_groups r"
  shows "\<exists>res. parse_method_from_match source (str_split 10 source) m is_proc = Inr res"
proof -
  define lines where "lines = str_split 10 source"
  from assms have "map_of (re_groups m) 1 \<noteq> None" by (auto simp: map_of_eq_None_iff)
  then obtain nm where nm: "need_group TypeError source m 1 = Inr nm"
    by (auto simp: need_group_def match_group_def)
  define sl where "sl = verify_start_line lines nm (count_list (take (re_start m) source) 10) [0, 1, 2]"
  have sl: "sl < length lines"
    unfolding sl_def lines_def by (intro verify_start_line_bound line_of_pos)
  define dl where "dl = (if sl < length lines then lines ! sl else [])"
  obtain ctx where ctx: "extract_context dl = Inr ctx" using extract_context_total by blast
  obtain ps where ps: "extract_params source (re_start m) lines sl = Inr ps"
    using extract_params_total by blast
  obtain en where en: "find_method_end source sl is_proc = Inr en"
    using find_method_end_total by blast
  obtain d where d: "extract_description_before lines sl = Inr d"
    using extract_description_before_total[of sl lines] sl by auto
  have "parse_method_from_match source lines m is_proc =
      (case en of
         None \<Rightarrow> Inr None
       | Some endline \<Rightarrow>
           Inr (Some \<lparr>m_name = nm, m_line = sl, m_endline = endline, m_isproc = is_proc,
                      m_is_export = (search EXPORT_PATTERN dl 0 \<noteq> None), m_params = ps,
                      m_description = d, m_context = ctx, m_calls_position = []\<rparr>))"
    unfolding parse_method_from_match_def nm ebind_Inr Let_def sl_def[symmetric] dl_def[symmetric]
      ctx ps en
    by (cases en) (simp_all add: d)
  then show ?thesis unfolding lines_def by (cases en) simp_all
qed

lemma parse_methods_total: "\<exists>ms. parse_methods source (str_split 10 source) = Inr ms"
proof -
  let ?lines = "str_split 10 source"
  have "\<exists>res. parse_method_from_match source ?lines m True = Inr res"
    if "m \<in> set (finditer PROC_PATTERN source)" for m
    using that finditer_from_groups[of m PROC_PATTERN source 0] group1_patterns(1)
    by (intro parse_method_from_match_total[of PROC_PATTERN]) (simp_all add: finditer_def)
  from emap_total[of "finditer PROC_PATTERN source" "\<lambda>m. parse_method_from_match source ?lines m True", OF this]
  obtain procs where p: "emap (\<lambda>m. parse_method_from_match source ?lines m True) (finditer PROC_PATTERN source) = Inr procs"
    by blast
  have "\<exists>res. parse_method_from_match source ?lines m False = Inr res"
    if "m \<in> set (finditer FUNC_PATTERN source)" for m
    using that finditer_from_groups[of m FUNC_PATTERN source 0] group1_patterns(2)
    by (intro parse_method_from_match_total[of FUNC_PATTERN]) (simp_all add: finditer_def)
  from emap_total[of "finditer FUNC_PATTERN source" "\<lambda>m. parse_method_from_match source ?lines m False", OF this]
  obtain funcs where f: "emap (\<lambda>m. parse_method_from_match source ?lines m False) (finditer FUNC_PATTERN source) = Inr funcs"
    by blast
  show ?thesis by (simp add: parse_methods_def p f)
qed

lemma parse_methods_sorted:
  "parse_methods source lines = Inr ms \<Longrightarrow> sorted (map m_line ms)"
  by (auto simp: parse_methods_def ebind_Inr_iff)

lemma module_vars_loop_total:
  assumes "\<forall>m \<in> set ms. 1 \<in> fst ` set (re_groups m)"
  shows "\<exists>r. module_vars_loop source (str_split 10 source) ms acc = Inr r"
  using assms
proof (induction ms arbitrary: acc)
  case Nil
  then show ?case by simp
next
  case (Cons m ms)
  let ?lines = "str_split 10 source"
  from Cons.prems have "map_of (re_groups m) 1 \<noteq> None" by (auto simp: map_of_eq_None_iff)
  then obtain nm where nm: "need_group TypeError source m 1 = Inr nm"
    by (auto simp: need_group_def match_group_def)
  have "count_list (take (re_start m) source) 10 \<le> length ?lines"
    using line_of_pos[of "re_start m" source] by simp
  from extract_description_before_total[OF this] obtain d where
    d: "extract_description_before ?lines (count_list (take (re_start m) source) 10) = Inr d" by blast
  from Cons have IH: "\<And>acc. \<exists>r. module_vars_loop source ?lines ms acc = Inr r" by simp
  show ?case using IH nm by (simp add: d Let_def)
qed

lemma parse_module_vars_total: "\<exists>r. parse_module_vars source (str_split 10 source) = Inr r"
proof -
  have "\<forall>m \<in> set (finditer MODULE_VAR_PATTERN source). 1 \<in> fst ` set (re_groups m)"
    using finditer_from_groups[of _ MODULE_VAR_PATTERN source 0] group1_patterns(3)
    by (auto simp: finditer_def)
  from module_vars_loop_total[OF this] show ?thesis by (simp add: parse_module_vars_def)
qed

subsection \<open>Call sites\<close>

lemma map_filter_id_map: "List.map_filter id (map g xs) = List.map_filter g xs"
  by (induction xs) (auto simp: map_filter_simps split: option.splits)

lemma call_sites_keywords:
  "c \<in> set (call_sites n line) \<Longrightarrow> py_lower (cp_call c) \<notin> set KEYWORDS"
  by (auto simp: call_sites_def List.map_filter_def split: option.splits if_splits)

lemma global_line_calls_eq: "global_line_calls n line = Inr (call_sites n line)"
proof -
  let ?g = "\<lambda>m. case match_group line m 1 of
          None \<Rightarrow> None
        | Some call_name \<Rightarrow>
            if py_lower call_name \<in> set KEYWORDS then None
            else Some \<lparr>cp_call = call_name, cp_line = n, cp_character = re_start m\<rparr>"
  let ?f = "\<lambda>m. ebind (need_group AttributeError line m 1) (\<lambda>call_name.
                if py_lower call_name \<in> set KEYWORDS then Inr None
                else Inr (Some \<lparr>cp_call = call_name, cp_line = n, cp_character = re_start m\<rparr>))"
  have "?f m = Inr (?g m)" if "m \<in> set (finditer CALL_PATTERN line)" for m
  proof -
    from need_group_finditer[OF that group1_patterns(4), of AttributeError] obtain t where
      t: "need_group AttributeError line m 1 = Inr t" "match_group line m 1 = Some t" by blast
    show ?thesis unfolding t by simp
  qed
  from emap_all[of "finditer CALL_PATTERN line" ?f ?g, OF this]
  have "emap ?f (finditer CALL_PATTERN line) = Inr (map ?g (finditer CALL_PATTERN line))" .
  then show ?thesis
    unfolding global_line_calls_def call_sites_def by (simp add: map_filter_id_map)
qed

lemma map_filter_skip_name:
  "List.map_filter (\<lambda>m. case mg m of
          None \<Rightarrow> None
        | Some call_name \<Rightarrow>
            if kw call_name then None
            else if call_name = nm then None
            else Some \<lparr>cp_call = call_name, cp_line = n, cp_character = re_start m\<rparr>) xs
   = filter (\<lambda>c. cp_call c \<noteq> nm)
       (List.map_filter (\<lambda>m. case mg m of
          None \<Rightarrow> None
        | Some call_name \<Rightarrow>
            if kw call_name then None
            else Some \<lparr>cp_call = call_name, cp_line = n, cp_character = re_start m\<rparr>) xs)"
  by (induction xs) (auto simp: map_filter_simps split: option.splits)

lemma method_line_calls_eq:
  "method_line_calls method n line
     = Inr (filter (\<lambda>c. cp_call c \<noteq> m_name method) (call_sites n line))"
proof -
  let ?g = "\<lambda>m. case match_group line m 1 of
          None \<Rightarrow> None
        | Some call_name \<Rightarrow>
            if py_lower call_name \<in> set KEYWORDS then None
            else if call_name = m_name method then None
            else Some \<lparr>cp_call = call_name, cp_line = n, cp_character = re_start m\<rparr>"
  let ?f = "\<lambda>m. ebind (need_group AttributeError line m 1) (\<lambda>call_name.
                if py_lower call_name \<in> set KEYWORDS then Inr None
                else if call_name = m_name method then Inr None
                else Inr (Some \<lparr>cp_call = call_name, cp_line = n, cp_character = re_start m\<rparr>))"
  have "?f m = Inr (?g m)" if "m \<in> set (finditer CALL_PATTERN line)" for m
  proof -
    from need_group_finditer[OF that group1_patterns(4), of AttributeError] obtain t where
      t: "need_group AttributeError line m 1 = Inr t" "match_group line m 1 = Some t" by blast
    show ?thesis unfolding t by simp
  qed
  from emap_all[of "finditer CALL_PATTERN line" ?f ?g, OF this]
  have "emap ?f (finditer CALL_PATTERN line) = Inr (map ?g (finditer CALL_PATTERN line))" .
  then have "method_line_calls method n line = Inr (List.map_filter ?g (finditer CALL_PATTERN line))"
    unfolding method_line_calls_def by (simp add: map_filter_id_map)
  then show ?thesis
    unfolding call_sites_def
    using map_filter_skip_name[where mg = "\<lambda>m. match_group line m 1"
            and kw = "\<lambda>c. py_lower c \<in> set KEYWORDS" and nm = "m_name method" and n = n
            and xs = "finditer CALL_PATTERN line"]
    by simp
qed

lemma concat_skip:
  "concat (map (\<lambda>(n, line). if P n then [] else f n line) xs)
     = concat (map (\<lambda>(n, line). f n line) (filter (\<lambda>(n, line). \<not> P n) xs))"
  by (induction xs) auto

lemma parse_global_calls_eq: "parse_global_calls lines ms = Inr (module_call_sites lines ms)"
proof -
  let ?f = "\<lambda>(line_num, line).
              if in_method_ranges ms line_num then Inr [] else global_line_calls line_num line"
  let ?g = "\<lambda>(line_num, line).
              if in_method_ranges ms line_num then [] else call_sites line_num line"
  have "?f x = Inr (?g x)" for x
    by (cases x) (simp add: global_line_calls_eq)
  then have "emap ?f (enumerate 0 lines) = Inr (map ?g (enumerate 0 lines))"
    by (intro emap_all)
  then show ?thesis
    unfolding parse_global_calls_def module_call_sites_def
    by (simp add: concat_skip[of "in_method_ranges ms" call_sites])
qed

lemma concat_filter_each:
  "concat (map (\<lambda>(k, line). filter P (f k line)) xs)
     = filter P (concat (map (\<lambda>(k, line). f k line) xs))"
  by (induction xs) auto

lemma parse_method_calls_eq: "parse_method_calls lines method = Inr (method_call_sites lines method)"
proof -
  let ?xs = "enumerate 0 (slice lines (m_line method) (m_endline method + 1))"
  let ?f = "\<lambda>(line_offset, line). method_line_calls method (m_line method + line_offset) line"
  let ?g = "\<lambda>(line_offset, line). filter (\<lambda>c. cp_call c \<noteq> m_name method)
               (call_sites (m_line method + line_offset) line)"
  have "?f x = Inr (?g x)" for x
    by (cases x) (simp add: method_line_calls_eq)
  then have e: "emap ?f ?xs = Inr (map ?g ?xs)"
    by (intro emap_all)
  have "concat (map ?g ?xs) = filter (\<lambda>c. cp_call c \<noteq> m_name method)
       (concat (map (\<lambda>(line_offset, line). call_sites (m_line method + line_offset) line) ?xs))"
    by (rule concat_filter_each)
  with e show ?thesis
    unfolding parse_method_calls_def method_call_sites_def Let_def by simp
qed

subsection \<open>The result of \<open>parse\<close>\<close>

lemma in_method_ranges_calls:
  "in_method_ranges (map (\<lambda>m. m\<lparr>m_calls_position := f m\<rparr>) ms) n = in_method_ranges ms n"
  by (simp add: in_method_ranges_def list_ex_iff)

lemma method_call_sites_calls:
  "method_call_sites lines (m\<lparr>m_calls_position := cp\<rparr>) = method_call_sites lines m"
  by (simp add: method_call_sites_def)

lemma parse_result:
  "\<exists>vars procs funcs.
      parse_module_vars source (str_split 10 source) = Inr vars
    \<and> emap (\<lambda>m. parse_method_from_match source (str_split 10 source) m True)
         (finditer PROC_PATTERN source) = Inr procs
    \<and> emap (\<lambda>m. parse_method_from_match source (str_split 10 source) m False)
         (finditer FUNC_PATTERN source) = Inr funcs
    \<and> parse source =
        Inr \<lparr>r_methods = map (\<lambda>m. m\<lparr>m_calls_position := method_call_sites (str_split 10 source) m\<rparr>)
                          (sort_key m_line (List.map_filter id (procs @ funcs))),
             r_global_calls = module_call_sites (str_split 10 source)
                          (sort_key m_line (List.map_filter id (procs @ funcs))),
             r_module_vars = vars\<rparr>"
proof -
  define lines where "lines = str_split 10 source"
  obtain vars where v: "parse_module_vars source lines = Inr vars"
    using parse_module_vars_total lines_def by blast
  obtain ms where ms: "parse_methods source lines = Inr ms"
    using parse_methods_total lines_def by blast
  then obtain procs funcs where
    p: "emap (\<lambda>m. parse_method_from_match source lines m True) (finditer PROC_PATTERN source) = Inr procs"
    and f: "emap (\<lambda>m. parse_method_from_match source lines m False) (finditer FUNC_PATTERN source) = Inr funcs"
    and s: "ms = sort_key m_line (List.map_filter id (procs @ funcs))"
    by (auto simp: parse_methods_def ebind_Inr_iff)
  have "emap (\<lambda>method. ebind (parse_method_calls lines method)
                  (\<lambda>calls_position. Inr (method\<lparr>m_calls_position := calls_position\<rparr>))) ms
        = Inr (map (\<lambda>m. m\<lparr>m_calls_position := method_call_sites lines m\<rparr>) ms)"
    by (intro emap_all) (simp add: parse_method_calls_eq)
  then have "parse source =
        Inr \<lparr>r_methods = map (\<lambda>m. m\<lparr>m_calls_position := method_call_sites lines m\<rparr>) ms,
             r_global_calls = module_call_sites lines ms, r_module_vars = vars\<rparr>"
    unfolding parse_def Let_def lines_def[symmetric] by (simp add: v ms parse_global_calls_eq)
  with v p f s show ?thesis unfolding lines_def by blast
qed

text \<open>
  Claim C8. \<open>parse\<close> returns a result for every source text, and no step of it raises:
  every read of \<open>lines\<close> is inside the list, every group that is used as a string has
  matched, and the assertion of \<open>_find_method_end\<close> holds. This covers unterminated
  methods, a missing final newline, nested declarations, sources of comments only and the
  empty source. The function is pure by construction.
\<close>

theorem parse_never_raises:
  "\<exists>res. parse source = Inr res"
  using parse_result[of source] by blast

text \<open>
  Claim C10. For every source, the methods of the result are in the order of their start
  lines (not decreasing): they are the methods found by the procedure pattern followed by
  those found by the function pattern, sorted together by start line, each then given
  its call sites.
\<close>

theorem parse_methods_in_line_order:
  "\<exists>res procs funcs.
      parse source = Inr res
    \<and> sorted (map m_line (r_methods res))
    \<and> emap (\<lambda>m. parse_method_from_match source (str_split 10 source) m True)
         (finditer PROC_PATTERN source) = Inr procs
    \<and> emap (\<lambda>m. parse_method_from_match source (str_split 10 source) m False)
         (finditer FUNC_PATTERN source) = Inr funcs
    \<and> r_methods res
         = map (\<lambda>m. m\<lparr>m_calls_position := method_call_sites (str_split 10 source) m\<rparr>)
             (sort_key m_line (List.map_filter id (procs @ funcs)))"
proof -
  from parse_result[of source] obtain vars procs funcs where
    p: "emap (\<lambda>m. parse_method_from_match source (str_split 10 source) m True)
         (finditer PROC_PATTERN source) = Inr procs"
    and f: "emap (\<lambda>m. parse_method_from_match source (str_split 10 source) m False)
         (finditer FUNC_PATTERN source) = Inr funcs"
    and r: "parse source =
        Inr \<lparr>r_methods = map (\<lambda>m. m\<lparr>m_calls_position := method_call_sites (str_split 10 source) m\<rparr>)
                          (sort_key m_line (List.map_filter id (procs @ funcs))),
             r_global_calls = module_call_sites (str_split 10 source)
                          (sort_key m_line (List.map_filter id (procs @ funcs))),
             r_module_vars = vars\<rparr>"
    by blast
  let ?ms = "sort_key m_line (List.map_filter id (procs @ funcs))"
  have "sorted (map m_line (map (\<lambda>m. m\<lparr>m_calls_position := method_call_sites (str_split 10 source) m\<rparr>) ?ms))"
    by (simp add: comp_def)
  with p f r show ?thesis by simp
qed

text \<open>
  Claim C7. For every source: the module-level call sites of the result are exactly the
  call sites (matches of an identifier followed by an opening parenthesis whose
  lower-cased name is not in \<open>KEYWORDS\<close>) on the lines outside the range of every method
  of the result; the call sites of every method are those on its lines whose name differs
  from the method's name; so no recorded call site has a lower-cased name in \<open>KEYWORDS\<close>,
  and no call site recorded in a method bears the method's own name.
\<close>

theorem parse_call_sites:
  "\<exists>res. parse source = Inr res
    \<and> r_global_calls res = module_call_sites (str_split 10 source) (r_methods res)
    \<and> list_all (\<lambda>m. m_calls_position m = method_call_sites (str_split 10 source) m) (r_methods res)
    \<and> list_all (\<lambda>c. py_lower (cp_call c) \<notin> set KEYWORDS) (r_global_calls res)
    \<and> list_all (\<lambda>m. list_all (\<lambda>c. py_lower (cp_call c) \<notin> set KEYWORDS \<and> cp_call c \<noteq> m_name m)
                       (m_calls_position m)) (r_methods res)"
proof -
  from parse_result[of source] obtain vars procs funcs where
    r: "parse source =
        Inr \<lparr>r_methods = map (\<lambda>m. m\<lparr>m_calls_position := method_call_sites (str_split 10 source) m\<rparr>)
                          (sort_key m_line (List.map_filter id (procs @ funcs))),
             r_global_calls = module_call_sites (str_split 10 source)
                          (sort_key m_line (List.map_filter id (procs @ funcs))),
             r_module_vars = vars\<rparr>"
    by blast
  define lines where "lines = str_split 10 source"
  define ms where "ms = sort_key m_line (List.map_filter id (procs @ funcs))"
  define ms' where "ms' = map (\<lambda>m. m\<lparr>m_calls_position := method_call_sites lines m\<rparr>) ms"
  have g: "module_call_sites lines ms' = module_call_sites lines ms"
    unfolding ms'_def module_call_sites_def by (simp add: in_method_ranges_calls)
  have own: "list_all (\<lambda>m. m_calls_position m = method_call_sites lines m) ms'"
    unfolding ms'_def by (simp add: list_all_iff method_call_sites_calls)
  have kw1: "list_all (\<lambda>c. py_lower (cp_call c) \<notin> set KEYWORDS) (module_call_sites lines ms)"
    unfolding module_call_sites_def by (auto simp: list_all_iff call_sites_keywords)
  have kw2: "list_all (\<lambda>c. py_lower (cp_call c) \<notin> set KEYWORDS \<and> cp_call c \<noteq> m_name m)
               (method_call_sites lines m)" for m
    unfolding method_call_sites_def by (auto simp: list_all_iff call_sites_keywords)
  have kw3: "list_all (\<lambda>m. list_all (\<lambda>c. py_lower (cp_call c) \<notin> set KEYWORDS \<and> cp_call c \<noteq> m_name m)
                       (m_calls_position m)) ms'"
    unfolding ms'_def using kw2 by (simp add: list_all_iff)
  from r have "parse source = Inr \<lparr>r_methods = ms', r_global_calls = module_call_sites lines ms,
                 r_module_vars = vars\<rparr>"
    unfolding ms'_def ms_def lines_def .
  with g own kw1 kw3 show ?thesis unfolding lines_def by simp
qed

end
